theory Spec2Isabelle
  imports Complex_Main
begin

section \<open>Python string primitives on Latin-1 text\<close>

text \<open>
  The page content stream is decoded with the \<^verbatim>\<open>latin-1\<close> codec, which maps every
  byte to the code point of the same number. A HOL \<^typ>\<open>char\<close> is one byte, so a
  \<^typ>\<open>string\<close> stands both for the raw bytes and for the decoded text. Item texts are
  modelled over the same alphabet (code points 0 to 255).

  \<^verbatim>\<open>str.strip()\<close>, \<^verbatim>\<open>str.split()\<close> and the \<^verbatim>\<open>\s\<close> class of \<^verbatim>\<open>re\<close> on a \<^verbatim>\<open>str\<close> pattern
  all use the same whitespace test; below 256 it accepts exactly the twelve code points
  listed in \<open>is_space\<close>.
\<close>

definition is_space :: "char \<Rightarrow> bool" where
  "is_space c = (c \<in> set [CHR 0x09, CHR 0x0A, CHR 0x0B, CHR 0x0C, CHR 0x0D,
       CHR 0x1C, CHR 0x1D, CHR 0x1E, CHR 0x1F, CHR 0x20, CHR 0x85, CHR 0xA0])"

text \<open>
  \<^verbatim>\<open>str.lower()\<close> below 256: the letters A to Z and the Latin-1 capitals 0xC0 to 0xDE
  (without the multiplication sign 0xD7) move up by 32, which sets bit 5; every other
  code point is left alone.
\<close>

definition is_upper :: "char \<Rightarrow> bool" where
  "is_upper c = (let n = (of_char c :: nat) in
     (65 \<le> n \<and> n \<le> 90) \<or> (192 \<le> n \<and> n \<le> 222 \<and> n \<noteq> 215))"

definition lower_char :: "char \<Rightarrow> char" where
  "lower_char c =
     (if is_upper c
      then (case c of Char b0 b1 b2 b3 b4 b5 b6 b7 \<Rightarrow> Char b0 b1 b2 b3 b4 True b6 b7)
      else c)"

definition py_lower :: "string \<Rightarrow> string" where
  "py_lower s = map lower_char s"

definition py_strip :: "string \<Rightarrow> string" where
  "py_strip s = rev (dropWhile is_space (rev (dropWhile is_space s)))"

text \<open>\<^verbatim>\<open>s.split()\<close>: the maximal runs of non-whitespace, in order.\<close>

fun split_acc :: "string \<Rightarrow> string \<Rightarrow> string list" where
  "split_acc cur [] = (if cur = [] then [] else [cur])"
| "split_acc cur (c # cs) =
     (if is_space c
      then (if cur = [] then split_acc [] cs else cur # split_acc [] cs)
      else split_acc (cur @ [c]) cs)"

definition py_split :: "string \<Rightarrow> string list" where
  "py_split s = split_acc [] s"

text \<open>\<^verbatim>\<open>s.startswith(p)\<close> and \<^verbatim>\<open>p in s\<close>.\<close>

definition startswith :: "string \<Rightarrow> string \<Rightarrow> bool" where
  "startswith s p = (take (length p) s = p)"

fun py_in :: "string \<Rightarrow> string \<Rightarrow> bool" where
  "py_in p [] = (p = [])"
| "py_in p (c # cs) = (startswith (c # cs) p \<or> py_in p cs)"

text \<open>\<^verbatim>\<open>s[a:b]\<close> for indices \<open>0 \<le> a\<close>, \<open>0 \<le> b\<close>: empty when \<open>b \<le> a\<close>, clipped at the end.\<close>

definition slice :: "nat \<Rightarrow> nat \<Rightarrow> 'a list \<Rightarrow> 'a list" where
  "slice a b s = take (b - a) (drop a s)"

section \<open>Structure items\<close>

text \<open>
  A structure item is the dictionary \<^verbatim>\<open>analyze_layout\<close> builds: \<^verbatim>\<open>page\<close>, \<^verbatim>\<open>type\<close>
  (\<^verbatim>\<open>"H1"\<close>, \<^verbatim>\<open>"H2"\<close>, \<^verbatim>\<open>"P"\<close> or \<^verbatim>\<open>"Table"\<close>), \<^verbatim>\<open>text\<close> (text items only),
  \<^verbatim>\<open>table_data\<close> (tables only), \<^verbatim>\<open>bbox\<close> and \<^verbatim>\<open>rect\<close>. A key that may be absent is an
  option. A table cell is the dictionary \<^verbatim>\<open>detect_tables\<close> builds; its \<^verbatim>\<open>bbox\<close> entry is
  always \<^verbatim>\<open>None\<close> and is left out. Coordinates are doubles in the source and the reals
  these doubles denote here.
\<close>

type_synonym box = "real \<times> real \<times> real \<times> real"

record cell =
  cell_text :: string
  is_header :: bool

record structure_item =
  page :: nat
  item_type :: string
  item_text :: "string option"
  table_data :: "cell list list option"
  bbox :: box
  rect :: box

text \<open>\<^verbatim>\<open>item.get("text", "")\<close> and \<^verbatim>\<open>item.get("table_data", [])\<close>.\<close>

definition get_text :: "structure_item \<Rightarrow> string" where
  "get_text item = (case item_text item of None \<Rightarrow> [] | Some s \<Rightarrow> s)"

definition get_table_data :: "structure_item \<Rightarrow> cell list list" where
  "get_table_data item = (case table_data item of None \<Rightarrow> [] | Some rows \<Rightarrow> rows)"

section \<open>The matcher: \<^verbatim>\<open>find_best_match\<close>\<close>

text \<open>
  The similarity of the partial-match rule:
  \<^verbatim>\<open>len(set(a.split()) & set(b.split())) / max(len(a.split()), len(b.split()))\<close>.
  The source computes it in floating point; here it is the exact quotient, and the
  constants 0.8 and 0.3 are the rationals 4/5 and 3/10. The denominator counts the words
  of the longer word list (with repetitions), not of the word set.
\<close>

definition similarity :: "string \<Rightarrow> string \<Rightarrow> rat" where
  "similarity a b =
     of_nat (card (set (py_split a) \<inter> set (py_split b)))
       / of_nat (max (length (py_split a)) (length (py_split b)))"

text \<open>The two conditions under which an item that is not an exact match can score.\<close>

definition contains_either :: "string \<Rightarrow> string \<Rightarrow> bool" where
  "contains_either text_lower item_lower =
     (py_in item_lower text_lower \<or> py_in text_lower item_lower)"

definition starts_with_item :: "string \<Rightarrow> string \<Rightarrow> bool" where
  "starts_with_item text_lower item_lower =
     startswith text_lower (take (min 20 (length item_lower)) item_lower)"

text \<open>
  The body of the loop after the exact-match test (source lines 216 to 229): the two
  updates of \<^verbatim>\<open>best_similarity\<close> and \<^verbatim>\<open>best_match_idx\<close>, one after the other.
\<close>

definition update_partial ::
  "string \<Rightarrow> string \<Rightarrow> nat \<Rightarrow> nat option \<times> rat \<Rightarrow> nat option \<times> rat" where
  "update_partial text_lower item_lower idx best =
     (if contains_either text_lower item_lower
      then (if similarity text_lower item_lower > snd best
            then (Some idx, similarity text_lower item_lower) else best)
      else best)"

definition update_prefix ::
  "string \<Rightarrow> string \<Rightarrow> nat \<Rightarrow> nat option \<times> rat \<Rightarrow> nat option \<times> rat" where
  "update_prefix text_lower item_lower idx best =
     (if starts_with_item text_lower item_lower
      then (if 4 / 5 > snd best then (Some idx, 4 / 5) else best)
      else best)"

text \<open>
  The loop over \<^verbatim>\<open>enumerate(items_for_page)\<close>, with the state
  (\<^verbatim>\<open>best_match_idx\<close>, \<^verbatim>\<open>best_similarity\<close>). An exact match returns at once; the end
  of the list returns the best index when the best similarity exceeds 0.3.
\<close>

fun find_best_match_loop ::
  "string \<Rightarrow> nat set \<Rightarrow> (nat \<times> structure_item) list \<Rightarrow> nat option \<times> rat \<Rightarrow> nat option" where
  "find_best_match_loop t used [] best = (if snd best > 3 / 10 then fst best else None)"
| "find_best_match_loop t used ((idx, item) # rest) best =
     (if idx \<in> used then find_best_match_loop t used rest best
      else if item_type item = ''Table'' then find_best_match_loop t used rest best
      else if py_strip (get_text item) = [] then find_best_match_loop t used rest best
      else if py_lower t = py_lower (py_strip (get_text item)) then Some idx
      else find_best_match_loop t used rest
             (update_prefix (py_lower t) (py_lower (py_strip (get_text item))) idx
               (update_partial (py_lower t) (py_lower (py_strip (get_text item))) idx best)))"

definition find_best_match :: "string \<Rightarrow> structure_item list \<Rightarrow> nat set \<Rightarrow> nat option" where
  "find_best_match text_block_text items_for_page used_indices =
     (if text_block_text = [] then None
      else find_best_match_loop text_block_text used_indices
             (enumerate 0 items_for_page) (None, 0))"

text \<open>
  Vocabulary for the matcher's properties. An item is eligible for a run when the loop
  does not skip it; it is an exact match when the lowercase run text equals the lowercase
  trimmed item text.
\<close>

definition eligible :: "nat set \<Rightarrow> nat \<Rightarrow> structure_item \<Rightarrow> bool" where
  "eligible used idx item =
     (idx \<notin> used \<and> item_type item \<noteq> ''Table'' \<and> py_strip (get_text item) \<noteq> [])"

definition exact_match :: "string \<Rightarrow> structure_item \<Rightarrow> bool" where
  "exact_match t item = (py_lower t = py_lower (py_strip (get_text item)))"

section \<open>Regular-expression scans\<close>

text \<open>
  \<^verbatim>\<open>re.finditer\<close> walks the string from left to right: the pattern is tried at the
  current position; a match is reported and the scan resumes at its end, a failure moves
  the scan one character on. A pattern is given here as a function from the rest of the
  string at the position to the text of group 1 and the length of the match. A match is
  reported as (start, end, group). None of the patterns below can match the empty
  string, so the branch for a match of length 0 is never taken; it only keeps the scan
  total.
\<close>

type_synonym re_match = "nat \<times> nat \<times> string"

definition match_start :: "re_match \<Rightarrow> nat" where
  "match_start m = fst m"

definition match_end :: "re_match \<Rightarrow> nat" where
  "match_end m = fst (snd m)"

definition match_group :: "re_match \<Rightarrow> string" where
  "match_group m = snd (snd m)"

function finditer :: "(string \<Rightarrow> (string \<times> nat) option) \<Rightarrow> nat \<Rightarrow> string \<Rightarrow> re_match list" where
  "finditer pat pos [] =
     (case pat [] of Some (g, n) \<Rightarrow> [(pos, pos + n, g)] | None \<Rightarrow> [])"
| "finditer pat pos (c # cs) =
     (case pat (c # cs) of
        Some (g, n) \<Rightarrow>
          (if n = 0 then (pos, pos, g) # finditer pat (Suc pos) cs
           else (pos, pos + n, g) # finditer pat (pos + n) (drop n (c # cs)))
      | None \<Rightarrow> finditer pat (Suc pos) cs)"
  by pat_completeness auto
termination
  by (relation "measure (\<lambda>(pat, pos, s). length s)") auto

declare finditer.simps [simp del]

text \<open>
  The pattern \<^verbatim>\<open>(BT\s+.*?ET)\<close> under \<^verbatim>\<open>re.DOTALL\<close>. After \<^verbatim>\<open>BT\<close> the greedy \<^verbatim>\<open>\s+\<close> takes the
  whole run of whitespace (at least one character), then the lazy \<^verbatim>\<open>.*?\<close> stops at the
  first \<^verbatim>\<open>ET\<close>. Giving whitespace back cannot find another match, since a whitespace
  character does not start \<^verbatim>\<open>ET\<close>. \<open>find_ET\<close> returns the length of the shortest prefix
  that ends with \<^verbatim>\<open>ET\<close>.
\<close>

fun find_ET :: "string \<Rightarrow> nat option" where
  "find_ET (c # d # cs) =
     (if c = CHR ''E'' \<and> d = CHR ''T'' then Some 2 else map_option Suc (find_ET (d # cs)))"
| "find_ET cs = None"

definition match_bt_et :: "string \<Rightarrow> (string \<times> nat) option" where
  "match_bt_et s =
     (case s of
        b # t # w # rest \<Rightarrow>
          (if b = CHR ''B'' \<and> t = CHR ''T'' \<and> is_space w
           then (case find_ET (dropWhile is_space (w # rest)) of
                   None \<Rightarrow> None
                 | Some e \<Rightarrow>
                     (let n = 2 + length (takeWhile is_space (w # rest)) + e
                      in Some (take n s, n)))
           else None)
      | _ \<Rightarrow> None)"

text \<open>
  The patterns of \<^verbatim>\<open>extract_text_from_bt_et\<close>, without \<^verbatim>\<open>re.DOTALL\<close>: the dot does not
  match a line feed. \<open>lazy_group k\<close> is \<^verbatim>\<open>(.*?)\<close> followed by the pattern \<open>k\<close>: the group
  grows one character at a time until \<open>k\<close> matches. \<open>match_close cl op\<close> is a closing
  bracket, \<^verbatim>\<open>\s*\<close> and an operator name, as in \<^verbatim>\<open>\)\s*Tj\<close>.
\<close>

fun lazy_group :: "(string \<Rightarrow> nat option) \<Rightarrow> string \<Rightarrow> (string \<times> nat) option" where
  "lazy_group k [] = (case k [] of Some n \<Rightarrow> Some ([], n) | None \<Rightarrow> None)"
| "lazy_group k (c # cs) =
     (case k (c # cs) of
        Some n \<Rightarrow> Some ([], n)
      | None \<Rightarrow>
          (if c = CHR 0x0A then None
           else map_option (\<lambda>(g, n). (c # g, Suc n)) (lazy_group k cs)))"

definition match_close :: "char \<Rightarrow> string \<Rightarrow> string \<Rightarrow> nat option" where
  "match_close cl op s =
     (case s of
        [] \<Rightarrow> None
      | c # cs \<Rightarrow>
          (if c = cl \<and> startswith (dropWhile is_space cs) op
           then Some (1 + length (takeWhile is_space cs) + length op)
           else None))"

definition match_bracketed :: "char \<Rightarrow> (string \<Rightarrow> nat option) \<Rightarrow> string \<Rightarrow> (string \<times> nat) option" where
  "match_bracketed opn k s =
     (case s of
        [] \<Rightarrow> None
      | c # cs \<Rightarrow>
          (if c = opn then map_option (\<lambda>(g, n). (g, Suc n)) (lazy_group k cs) else None))"

text \<open>\<^verbatim>\<open>\((.*?)\)\s*Tj\<close>, \<^verbatim>\<open>\[(.*?)\]\s*TJ\<close> and \<^verbatim>\<open>\((.*?)\)\<close>.\<close>

definition tj_pattern :: "string \<Rightarrow> (string \<times> nat) option" where
  "tj_pattern = match_bracketed CHR ''('' (match_close CHR '')'' ''Tj'')"

definition tj_array_pattern :: "string \<Rightarrow> (string \<times> nat) option" where
  "tj_array_pattern = match_bracketed CHR ''['' (match_close CHR '']'' ''TJ'')"

definition string_pattern :: "string \<Rightarrow> (string \<times> nat) option" where
  "string_pattern = match_bracketed CHR ''('' (match_close CHR '')'' [])"

text \<open>\<^verbatim>\<open>sep.join(parts)\<close>.\<close>

fun join :: "string \<Rightarrow> string list \<Rightarrow> string" where
  "join sep [] = []"
| "join sep [p] = p"
| "join sep (p # q # ps) = p @ sep @ join sep (q # ps)"

definition extract_text_from_bt_et :: "string \<Rightarrow> string" where
  "extract_text_from_bt_et bt_et_block =
     (let tj_parts = map match_group (finditer tj_pattern 0 bt_et_block);
          array_parts =
            concat (map (\<lambda>m. map match_group (finditer string_pattern 0 (match_group m)))
                        (finditer tj_array_pattern 0 bt_et_block))
      in py_strip (join '' '' (tj_parts @ array_parts)))"

section \<open>The rewriter: \<^verbatim>\<open>insert_marked_content_by_bbox\<close>\<close>

text \<open>Decimal digits of a number, as an f-string prints an \<^verbatim>\<open>int\<close>.\<close>

definition digit_char :: "nat \<Rightarrow> char" where
  "digit_char d = ''0123456789'' ! d"

function str_nat :: "nat \<Rightarrow> string" where
  "str_nat n = (if n < 10 then [digit_char n] else str_nat (n div 10) @ [digit_char (n mod 10)])"
  by pat_completeness auto
termination
  by (relation "measure id") auto

declare str_nat.simps [simp del]

text \<open>The inserted operators: \<^verbatim>\<open>f"/{tag_type} <</MCID {mcid}>> BDC\n"\<close> and \<^verbatim>\<open>"\nEMC"\<close>.\<close>

definition bdc_operator :: "string \<Rightarrow> nat \<Rightarrow> string" where
  "bdc_operator tag_type mcid_no =
     ''/'' @ tag_type @ '' <</MCID '' @ str_nat mcid_no @ ''>> BDC'' @ [CHR 0x0A]"

definition emc_operator :: string where
  "emc_operator = CHR 0x0A # ''EMC''"

text \<open>
  The first loop (source lines 258 to 267): each text block, in order, is matched against
  the items not yet used; a match marks its item as used.
\<close>

fun match_text_blocks ::
  "structure_item list \<Rightarrow> nat set \<Rightarrow> re_match list \<Rightarrow> (re_match \<times> nat option) list" where
  "match_text_blocks items used [] = []"
| "match_text_blocks items used (m # ms) =
     (case find_best_match (extract_text_from_bt_et (match_group m)) items used of
        Some matched_idx \<Rightarrow>
          (m, Some matched_idx) # match_text_blocks items (insert matched_idx used) ms
      | None \<Rightarrow> (m, None) # match_text_blocks items used ms)"

text \<open>
  The second loop (source lines 275 to 297) collects the parts of the new content: the
  text before each block, the block (wrapped when it has an item; the index always comes
  from \<^verbatim>\<open>enumerate\<close>, so \<^verbatim>\<open>items_for_page[item_idx]\<close> is in range) and the rest after the
  last block.
\<close>

fun new_content_parts ::
  "string \<Rightarrow> structure_item list \<Rightarrow> nat \<Rightarrow> (re_match \<times> nat option) list \<Rightarrow> string list" where
  "new_content_parts content_str items last_end [] = [drop last_end content_str]"
| "new_content_parts content_str items last_end ((m, item_idx) # rest) =
     slice last_end (match_start m) content_str
       # (case item_idx of
            Some i \<Rightarrow> [bdc_operator (item_type (items ! i)) i, match_group m, emc_operator]
          | None \<Rightarrow> [match_group m])
       @ new_content_parts content_str items (match_end m) rest"

text \<open>
  The rewriter. \<^verbatim>\<open>content_bytes.decode('latin-1')\<close> maps every byte to the code point of
  the same number and so succeeds on every byte string; \<open>decode_latin1\<close> still returns
  an option, and the \<^verbatim>\<open>except\<close> branch of the source, which returns the bytes as they
  came, is the \<open>None\<close> branch below. Encoding the result with \<^verbatim>\<open>latin-1\<close> is the identity
  on bytes.
\<close>

definition decode_latin1 :: "string \<Rightarrow> string option" where
  "decode_latin1 content_bytes = Some content_bytes"

definition text_block_matches :: "string \<Rightarrow> structure_item list \<Rightarrow> (re_match \<times> nat option) list" where
  "text_block_matches content_str items =
     match_text_blocks items {} (finditer match_bt_et 0 content_str)"

definition insert_marked_content_by_bbox :: "string \<Rightarrow> structure_item list \<Rightarrow> string" where
  "insert_marked_content_by_bbox content_bytes items_for_page =
     (case decode_latin1 content_bytes of
        None \<Rightarrow> content_bytes
      | Some content_str \<Rightarrow>
          (if finditer match_bt_et 0 content_str = [] then content_bytes
           else concat (new_content_parts content_str items_for_page 0
                          (text_block_matches content_str items_for_page))))"

text \<open>
  The marked-content identifiers the rewriter writes into a page's stream, in stream
  order: the item index of every matched block.
\<close>

definition emitted_mcids :: "string \<Rightarrow> structure_item list \<Rightarrow> nat list" where
  "emitted_mcids content_bytes items_for_page =
     (case decode_latin1 content_bytes of
        None \<Rightarrow> []
      | Some content_str \<Rightarrow> List.map_filter snd (text_block_matches content_str items_for_page))"

section \<open>The structure tree builder of \<^verbatim>\<open>apply_tagging\<close>\<close>

text \<open>
  A structure element is a dictionary with the role \<^verbatim>\<open>S\<close>, the title \<^verbatim>\<open>T\<close> (absent for
  tables and rows) and the entry \<^verbatim>\<open>K\<close>, which is either an array of child elements
  (\<open>Group\<close>) or one marked-content identifier (\<open>Marked\<close>). The parent and page
  references follow from the position in the tree, and roles are written without the
  slash of a PDF name. Creating an element is taken to succeed; the source logs a
  failure of the PDF library and goes on.
\<close>

datatype struct_elem =
    Group string "string option" "struct_elem list"
  | Marked string "string option" nat

fun referenced_mcids :: "struct_elem \<Rightarrow> nat list" where
  "referenced_mcids (Marked s t k) = [k]"
| "referenced_mcids (Group s t ks) = concat (map referenced_mcids ks)"

text \<open>
  The loops of source lines 374 to 438, with the running \<^verbatim>\<open>mcid_counter\<close> passed along:
  the cells of a row, the rows of a table, the items of a page.
\<close>

fun build_cells :: "cell list \<Rightarrow> nat \<Rightarrow> struct_elem list \<times> nat" where
  "build_cells [] mcid_counter = ([], mcid_counter)"
| "build_cells (c # cs) mcid_counter =
     (let cell_elem = Marked (if is_header c then ''TH'' else ''TD'')
                        (Some (take 100 (cell_text c))) mcid_counter;
          (elems, counter') = build_cells cs (mcid_counter + 1)
      in (cell_elem # elems, counter'))"

fun build_rows :: "cell list list \<Rightarrow> nat \<Rightarrow> struct_elem list \<times> nat" where
  "build_rows [] mcid_counter = ([], mcid_counter)"
| "build_rows (row # rows) mcid_counter =
     (let (cell_elems, c1) = build_cells row mcid_counter;
          (tr_elems, c2) = build_rows rows c1
      in (Group ''TR'' None cell_elems # tr_elems, c2))"

fun build_elements :: "structure_item list \<Rightarrow> nat \<Rightarrow> struct_elem list \<times> nat" where
  "build_elements [] mcid_counter = ([], mcid_counter)"
| "build_elements (item # items) mcid_counter =
     (if item_type item = ''Table''
      then (let (tr_elems, c1) = build_rows (get_table_data item) mcid_counter;
                (elems, c2) = build_elements items c1
            in (Group ''Table'' None tr_elems # elems, c2))
      else (let (elems, c2) = build_elements items (mcid_counter + 1)
            in (Marked (item_type item) (Some (take 100 (get_text item))) mcid_counter
                  # elems, c2)))"

definition build_section :: "nat \<Rightarrow> structure_item list \<Rightarrow> struct_elem" where
  "build_section page_idx items_for_page =
     Group ''Sect'' (Some (''Page-'' @ str_nat (page_idx + 1)))
       (fst (build_elements items_for_page 0))"

text \<open>
  \<^verbatim>\<open>apply_tagging\<close> over the pages of the document. A page is its content stream, if it
  has one. The items of page \<open>p\<close> are those with \<^verbatim>\<open>item["page"] - 1 == p\<close>, in their
  order; a page without items or without content is left as it is and gets no section.
\<close>

definition items_of_page :: "structure_item list \<Rightarrow> nat \<Rightarrow> structure_item list" where
  "items_of_page items p = filter (\<lambda>item. page item = p + 1) items"



section \<open>The table extractor: \<^verbatim>\<open>detect_tables\<close>\<close>

text \<open>
  A detected table is its bounding box and the result of \<^verbatim>\<open>table.extract()\<close>: rows of
  cells, a cell being a string or \<^verbatim>\<open>None\<close>; the result is \<open>None\<close> when the call raises.
  A cell is kept when it is truthy (a non-empty string), and its text is then trimmed.
\<close>

record raw_table =
  raw_bbox :: box
  extracted :: "string option list list option"

definition make_row :: "bool \<Rightarrow> string option list \<Rightarrow> cell list" where
  "make_row hdr row =
     List.map_filter
       (\<lambda>cell_text. case cell_text of
            None \<Rightarrow> None
          | Some s \<Rightarrow> if s = [] then None
                      else Some \<lparr>cell_text = py_strip s, is_header = hdr\<rparr>)
       row"

definition table_cells :: "string option list list \<Rightarrow> cell list list" where
  "table_cells ext =
     (case ext of
        [] \<Rightarrow> []
      | first_row # body_rows \<Rightarrow>
          (if make_row True first_row \<noteq> [] then [make_row True first_row] else [])
            @ filter (\<lambda>table_row. table_row \<noteq> []) (map (make_row False) body_rows))"

definition detect_table :: "raw_table \<Rightarrow> (box \<times> cell list list) option" where
  "detect_table t =
     (case extracted t of
        None \<Rightarrow> None
      | Some ext \<Rightarrow>
          (if ext = [] then None
           else if table_cells ext \<noteq> [] \<and> length (table_cells ext) > 1
                then Some (raw_bbox t, table_cells ext)
                else None))"

text \<open>\<^verbatim>\<open>detect_tables\<close>: \<open>None\<close> stands for a failing \<^verbatim>\<open>page.find_tables()\<close>.\<close>

definition detect_tables :: "raw_table list option \<Rightarrow> (box \<times> cell list list) list" where
  "detect_tables tables =
     (case tables of None \<Rightarrow> [] | Some ts \<Rightarrow> List.map_filter detect_table ts)"

section \<open>The layout classifier: \<^verbatim>\<open>analyze_layout\<close>\<close>

unbundle bit_operations_syntax

text \<open>
  A text block of \<^verbatim>\<open>page.get_text("dict")\<close>: its bounding box and its lines, each a list
  of spans with text, font size and flags; an image block has no \<^verbatim>\<open>lines\<close> key.
  Font sizes are doubles in the source and the reals they denote here; the thresholds 12
  and 14 and the comparisons with them are exact in both. An addition or a subtraction
  of coordinates is rounded to a double in the source: the rounding is the parameter
  \<open>fl\<close> of the definitions below, applied to each exact sum or difference, and nothing
  is assumed about it.

  The flags of a span are the font flags of PyMuPDF: bit 0 superscript (1), bit 1 italic
  (2), bit 2 serifed (4), bit 3 monospaced (8), bit 4 bold (16).
\<close>

type_synonym rounding = "real \<Rightarrow> real"

definition font_flag_italic :: int where
  "font_flag_italic = 2"

definition font_flag_bold :: int where
  "font_flag_bold = 16"

record span =
  span_text :: string
  span_size :: real
  span_flags :: int

record block =
  block_bbox :: box
  block_lines :: "span list list option"

definition in_table :: "rounding \<Rightarrow> box \<Rightarrow> box \<Rightarrow> bool" where
  "in_table fl block_box table_box =
     (case (block_box, table_box) of
        ((b0, b1, b2, b3), (t0, t1, t2, t3)) \<Rightarrow>
          b0 \<ge> fl (t0 - 5) \<and> b1 \<ge> fl (t1 - 5) \<and> b2 \<le> fl (t2 + 5) \<and> b3 \<le> fl (t3 + 5))"

text \<open>
  The loop over the spans: the text, the largest font size and the variable the source
  calls \<^verbatim>\<open>is_bold\<close>, set where \<^verbatim>\<open>span["flags"] & 2\<close> is not zero.
\<close>

definition span_step :: "span \<Rightarrow> string \<times> real \<times> bool \<Rightarrow> string \<times> real \<times> bool" where
  "span_step sp st =
     (case st of
        (block_text, max_font_size, is_bold) \<Rightarrow>
          (block_text @ span_text sp @ '' '',
           max max_font_size (span_size sp),
           (if span_flags sp AND 2 \<noteq> 0 then True else is_bold)))"

definition block_style :: "span list list \<Rightarrow> string \<times> real \<times> bool" where
  "block_style lines = fold span_step (concat lines) ([], 0, False)"

definition tag_of :: "real \<Rightarrow> bool \<Rightarrow> string" where
  "tag_of max_font_size is_bold =
     (if max_font_size > 14 then ''H1''
      else if max_font_size > 12 \<or> is_bold then ''H2''
      else ''P'')"

definition rect_of :: "rounding \<Rightarrow> real \<Rightarrow> box \<Rightarrow> box" where
  "rect_of fl height b =
     (case b of (x0, y0, x1, y1) \<Rightarrow> (x0, fl (height - y1), fl (x1 - x0), fl (y1 - y0)))"

text \<open>One turn of the loop over the blocks: the item a block gives, if any.\<close>

definition classify_block ::
  "rounding \<Rightarrow> nat \<Rightarrow> real \<Rightarrow> box list \<Rightarrow> block \<Rightarrow> structure_item option" where
  "classify_block fl page_num height table_bboxes b =
     (case block_lines b of
        None \<Rightarrow> None
      | Some lines \<Rightarrow>
          (if \<exists>table_bbox \<in> set table_bboxes. in_table fl (block_bbox b) table_bbox then None
           else (case block_style lines of
                   (block_text, max_font_size, is_bold) \<Rightarrow>
                     (if py_strip block_text = [] then None
                      else Some \<lparr>page = page_num + 1,
                                 item_type = tag_of max_font_size is_bold,
                                 item_text = Some (py_strip block_text),
                                 table_data = None,
                                 bbox = block_bbox b,
                                 rect = rect_of fl height (block_bbox b)\<rparr>))))"

definition table_item ::
  "rounding \<Rightarrow> nat \<Rightarrow> real \<Rightarrow> box \<times> cell list list \<Rightarrow> structure_item" where
  "table_item fl page_num height t =
     \<lparr>page = page_num + 1, item_type = ''Table'', item_text = None,
      table_data = Some (snd t), bbox = fst t, rect = rect_of fl height (fst t)\<rparr>"

text \<open>
  The items of one page: the tables, then the text blocks, sorted by the top coordinate
  \<^verbatim>\<open>y_pos\<close>, which is the second entry of the bounding box for both kinds
  (\<^verbatim>\<open>list.sort\<close> is stable). \<open>blocks\<close> is \<open>None\<close> when \<^verbatim>\<open>page.get_text\<close> raises; the
  page then gives no item at all.
\<close>

definition y_pos :: "structure_item \<Rightarrow> real" where
  "y_pos item = fst (snd (bbox item))"

definition analyze_page ::
  "rounding \<Rightarrow> nat \<Rightarrow> real \<Rightarrow> raw_table list option \<Rightarrow> block list option
     \<Rightarrow> structure_item list" where
  "analyze_page fl page_num height raw_tables blocks =
     (let tables = detect_tables raw_tables in
      case blocks of
        None \<Rightarrow> []
      | Some bs \<Rightarrow>
          sort_key y_pos
            (map (table_item fl page_num height) tables
               @ List.map_filter (classify_block fl page_num height (map fst tables)) bs))"

record page_layout =
  page_height :: real
  page_tables :: "raw_table list option"
  page_blocks :: "block list option"

definition analyze_layout :: "rounding \<Rightarrow> page_layout list \<Rightarrow> structure_item list" where
  "analyze_layout fl doc =
     concat (map (\<lambda>(page_num, pg).
                    analyze_page fl page_num (page_height pg) (page_tables pg) (page_blocks pg))
                 (enumerate 0 doc))"
section \<open>Scores: as the loop computes them, and as rule 2 is worded\<close>

text \<open>
  The loop keeps no score per item. To state what it selects, the two updates of the
  loop body are read as one score of a run text and an item. \<open>containment_score\<close> is the
  similarity of source line 219 where one lowercase text contains the other, and 0
  otherwise; its denominator is the length of the longer word list, repetitions
  counted. \<open>prefix_score\<close> is 0.8 where the run starts with the first 20 characters of the
  item. \<open>source_score\<close> is the larger of the two, and \<open>best_scan\<close> is a plain search for
  the first item of strictly largest \<open>source_score\<close>.
\<close>

definition containment_score :: "string \<Rightarrow> string \<Rightarrow> rat" where
  "containment_score text_lower item_lower =
     (if contains_either text_lower item_lower then similarity text_lower item_lower else 0)"

definition prefix_score :: "string \<Rightarrow> string \<Rightarrow> rat" where
  "prefix_score text_lower item_lower =
     (if starts_with_item text_lower item_lower then 4 / 5 else 0)"

definition source_score :: "string \<Rightarrow> structure_item \<Rightarrow> rat" where
  "source_score t item =
     max (containment_score (py_lower t) (py_lower (py_strip (get_text item))))
         (prefix_score (py_lower t) (py_lower (py_strip (get_text item))))"

fun best_scan ::
  "string \<Rightarrow> nat set \<Rightarrow> (nat \<times> structure_item) list \<Rightarrow> nat option \<times> rat \<Rightarrow> nat option \<times> rat" where
  "best_scan t used [] best = best"
| "best_scan t used ((idx, item) # rest) best =
     best_scan t used rest
       (if eligible used idx item \<and> source_score t item > snd best
        then (Some idx, source_score t item) else best)"

text \<open>
  Rule 2 as it is worded divides by the size of the larger word set instead.
  \<open>word_set_ratio\<close>, \<open>worded_containment_score\<close> and \<open>worded_score\<close> follow these words; they
  differ from the source's scores as soon as a word is repeated.
\<close>

definition word_set_ratio :: "string \<Rightarrow> string \<Rightarrow> rat" where
  "word_set_ratio a b =
     of_nat (card (set (py_split a) \<inter> set (py_split b)))
       / of_nat (max (card (set (py_split a))) (card (set (py_split b))))"

definition worded_containment_score :: "string \<Rightarrow> string \<Rightarrow> rat" where
  "worded_containment_score text_lower item_lower =
     (if contains_either text_lower item_lower then word_set_ratio text_lower item_lower else 0)"

definition worded_score :: "string \<Rightarrow> structure_item \<Rightarrow> rat" where
  "worded_score t item =
     max (worded_containment_score (py_lower t) (py_lower (py_strip (get_text item))))
         (prefix_score (py_lower t) (py_lower (py_strip (get_text item))))"

section \<open>Vocabulary for the rewriter's properties\<close>


text \<open>
  A string has a text block when somewhere in it \<^verbatim>\<open>BT\<close> is followed by a whitespace
  character and, later, by \<^verbatim>\<open>ET\<close>.
\<close>

definition bt_et_at :: "string \<Rightarrow> bool" where
  "bt_et_at s =
     (case s of
        b # t # w # rest \<Rightarrow> b = CHR ''B'' \<and> t = CHR ''T'' \<and> is_space w \<and> py_in ''ET'' rest
      | _ \<Rightarrow> False)"

fun has_bt_et :: "string \<Rightarrow> bool" where
  "has_bt_et [] = False"
| "has_bt_et (c # cs) = (bt_et_at (c # cs) \<or> has_bt_et cs)"




section \<open>Counting the identifiers the builder hands out\<close>

text \<open>
  The builder increments its counter once per text item and once per cell of a table
  item.
\<close>

definition cell_count :: "structure_item \<Rightarrow> nat" where
  "cell_count item = sum_list (map length (get_table_data item))"

definition mcid_count :: "structure_item list \<Rightarrow> nat" where
  "mcid_count items =
     sum_list (map (\<lambda>item. if item_type item = ''Table'' then cell_count item else 1) items)"

section \<open>Sample data\<close>

text \<open>A text item with a given tag and text, on page 1, for the worked examples.\<close>

definition text_item :: "string \<Rightarrow> string \<Rightarrow> structure_item" where
  "text_item tag s = \<lparr>page = 1, item_type = tag, item_text = Some s, table_data = None,
                      bbox = (0, 0, 0, 0), rect = (0, 0, 0, 0)\<rparr>"

text \<open>A text block with a single span, for the worked examples.\<close>

definition one_span_block :: "box \<Rightarrow> string \<Rightarrow> real \<Rightarrow> int \<Rightarrow> block" where
  "one_span_block b s font_size flags =
     \<lparr>block_bbox = b,
      block_lines = Some [[\<lparr>span_text = s, span_size = font_size, span_flags = flags\<rparr>]]\<rparr>"

section \<open>Properties of the matcher\<close>

lemma similarity_nonneg: "0 \<le> similarity a b"
  by (simp add: similarity_def)

lemma similarity_le_word_set_ratio: "similarity a b \<le> word_set_ratio a b"
proof -
  let ?A = "set (py_split a)" and ?B = "set (py_split b)"
  let ?n = "card (?A \<inter> ?B)"
  let ?d = "max (card ?A) (card ?B)" and ?D = "max (length (py_split a)) (length (py_split b))"
  have dD: "?d \<le> ?D"
    using card_length[of "py_split a"] card_length[of "py_split b"] by (simp add: max_def)
  show ?thesis
  proof (cases "?d = 0")
    case True
    then have "card ?A = 0" by (simp add: max_def split: if_splits)
    then have "?A = {}" by simp
    then have "?n = 0" by simp
    then show ?thesis by (simp add: similarity_def word_set_ratio_def)
  next
    case False
    then have "0 < ?d" using gr0I by blast
    have "(of_nat ?n :: rat) / of_nat ?D \<le> of_nat ?n / of_nat ?d"
    proof (rule frac_le)
      show "(0::rat) \<le> of_nat ?n" by simp
      show "(of_nat ?n :: rat) \<le> of_nat ?n" by simp
      show "(0::rat) < of_nat ?d" using \<open>0 < ?d\<close> by (simp only: of_nat_0_less_iff)
      show "(of_nat ?d :: rat) \<le> of_nat ?D" using dD by (simp only: of_nat_le_iff)
    qed
    then show ?thesis by (simp add: similarity_def word_set_ratio_def)
  qed
qed

lemma source_score_nonneg: "0 \<le> source_score t item"
  by (simp add: source_score_def containment_score_def prefix_score_def similarity_nonneg max_def)

lemma updates_as_max:
  assumes "0 \<le> snd best"
  shows "update_prefix (py_lower t) (py_lower (py_strip (get_text item))) idx
           (update_partial (py_lower t) (py_lower (py_strip (get_text item))) idx best)
         = (if source_score t item > snd best then (Some idx, source_score t item) else best)"
  using assms similarity_nonneg[of "py_lower t" "py_lower (py_strip (get_text item))"]
  by (cases best) (auto simp: update_prefix_def update_partial_def source_score_def containment_score_def prefix_score_def max_def)

lemma loop_as_scan:
  assumes "\<forall>(idx, item) \<in> set xs. eligible used idx item \<longrightarrow> \<not> exact_match t item"
    and "0 \<le> snd best"
  shows "find_best_match_loop t used xs best =
           (if snd (best_scan t used xs best) > 3 / 10 then fst (best_scan t used xs best) else None)"
  using assms
proof (induction xs arbitrary: best)
  case Nil
  then show ?case by simp
next
  case (Cons p xs)
  obtain idx item where p: "p = (idx, item)" by (cases p)
  let ?b = "if eligible used idx item \<and> source_score t item > snd best
            then (Some idx, source_score t item) else best"
  have nn: "0 \<le> snd ?b" using Cons.prems(2) source_score_nonneg by simp
  have rest: "\<forall>(idx, item) \<in> set xs. eligible used idx item \<longrightarrow> \<not> exact_match t item"
    using Cons.prems(1) by simp
  note IH = Cons.IH[OF rest]
  show ?case
  proof (cases "eligible used idx item")
    case True
    with Cons.prems(1) p have ne: "\<not> exact_match t item" by simp
    from True ne p show ?thesis
      using IH[OF nn] updates_as_max[OF Cons.prems(2), of t item idx]
      by (simp add: eligible_def exact_match_def)
  next
    case False
    with p show ?thesis
      using IH[OF Cons.prems(2)] by (auto simp: eligible_def)
  qed
qed

lemma best_scan_mono: "snd best \<le> snd (best_scan t used xs best)"
proof (induction xs arbitrary: best)
  case Nil
  then show ?case by simp
next
  case (Cons p xs)
  obtain idx item where p: "p = (idx, item)" by (cases p)
  show ?case
    using Cons.IH[of "if eligible used idx item \<and> source_score t item > snd best
            then (Some idx, source_score t item) else best"] p
    by (auto split: if_splits)
qed

lemma best_scan_upper:
  assumes "k < length xs" "eligible used (fst (xs ! k)) (snd (xs ! k))"
  shows "source_score t (snd (xs ! k)) \<le> snd (best_scan t used xs best)"
  using assms
proof (induction xs arbitrary: best k)
  case Nil
  then show ?case by simp
next
  case (Cons p xs)
  obtain idx item where p: "p = (idx, item)" by (cases p)
  let ?b = "if eligible used idx item \<and> source_score t item > snd best
            then (Some idx, source_score t item) else best"
  show ?case
  proof (cases k)
    case 0
    with Cons.prems p have "source_score t item \<le> snd ?b" by auto
    also have "\<dots> \<le> snd (best_scan t used xs ?b)" by (rule best_scan_mono)
    finally show ?thesis using 0 p by simp
  next
    case (Suc k')
    with Cons.prems have "k' < length xs" "eligible used (fst (xs ! k')) (snd (xs ! k'))" by auto
    from Cons.IH[OF this, of ?b] show ?thesis using Suc p by simp
  qed
qed

lemma best_scan_result:
  "best_scan t used xs best = best \<or>
   (\<exists>k<length xs. fst (best_scan t used xs best) = Some (fst (xs ! k))
       \<and> eligible used (fst (xs ! k)) (snd (xs ! k))
       \<and> snd (best_scan t used xs best) = source_score t (snd (xs ! k))
       \<and> snd best < snd (best_scan t used xs best)
       \<and> (\<forall>k'<k. eligible used (fst (xs ! k')) (snd (xs ! k'))
              \<longrightarrow> source_score t (snd (xs ! k')) < source_score t (snd (xs ! k))))"
proof (induction xs arbitrary: best)
  case Nil
  then show ?case by simp
next
  case (Cons p xs)
  obtain idx item where p: "p = (idx, item)" by (cases p)
  let ?upd = "eligible used idx item \<and> source_score t item > snd best"
  let ?b = "if ?upd then (Some idx, source_score t item) else best"
  let ?r = "best_scan t used xs ?b"
  have r: "best_scan t used (p # xs) best = ?r" using p by simp
  from Cons.IH[of ?b] consider
    (same) "?r = ?b"
  | (later) k where "k < length xs" "fst ?r = Some (fst (xs ! k))"
      "eligible used (fst (xs ! k)) (snd (xs ! k))"
      "snd ?r = source_score t (snd (xs ! k))" "snd ?b < snd ?r"
      "\<forall>k'<k. eligible used (fst (xs ! k')) (snd (xs ! k'))
              \<longrightarrow> source_score t (snd (xs ! k')) < source_score t (snd (xs ! k))"
    by blast
  then show ?case
  proof cases
    case same
    show ?thesis
    proof (cases ?upd)
      case True
      have "0 < length (p # xs) \<and> fst ?r = Some (fst ((p # xs) ! 0))
        \<and> eligible used (fst ((p # xs) ! 0)) (snd ((p # xs) ! 0))
        \<and> snd ?r = source_score t (snd ((p # xs) ! 0)) \<and> snd best < snd ?r"
        using same True p by simp
      then show ?thesis unfolding r by (intro disjI2 exI[of _ 0]) simp
    next
      case False
      then have "?b = best" by (rule if_not_P)
      with same have "?r = best" by (simp only:)
      then show ?thesis unfolding r by (rule disjI1)
    qed
  next
    case later
    have first: "eligible used idx item \<longrightarrow> source_score t item < source_score t (snd (xs ! k))"
      using later(4,5) by (auto split: if_splits)
    have lt: "snd best < snd ?r" using later(5) by (auto split: if_splits)
    have "\<forall>k'<Suc k. eligible used (fst ((p # xs) ! k')) (snd ((p # xs) ! k'))
              \<longrightarrow> source_score t (snd ((p # xs) ! k')) < source_score t (snd ((p # xs) ! Suc k))"
    proof (intro allI impI)
      fix k' assume "k' < Suc k" "eligible used (fst ((p # xs) ! k')) (snd ((p # xs) ! k'))"
      then show "source_score t (snd ((p # xs) ! k')) < source_score t (snd ((p # xs) ! Suc k))"
        using first later(6) p by (cases k') auto
    qed
    with later lt have "Suc k < length (p # xs) \<and> fst ?r = Some (fst ((p # xs) ! Suc k))
       \<and> eligible used (fst ((p # xs) ! Suc k)) (snd ((p # xs) ! Suc k))
       \<and> snd ?r = source_score t (snd ((p # xs) ! Suc k))
       \<and> snd best < snd ?r
       \<and> (\<forall>k'<Suc k. eligible used (fst ((p # xs) ! k')) (snd ((p # xs) ! k'))
              \<longrightarrow> source_score t (snd ((p # xs) ! k')) < source_score t (snd ((p # xs) ! Suc k)))"
      by simp
    then show ?thesis unfolding r by (intro disjI2 exI[of _ "Suc k"]) 
  qed
qed


lemma loop_first_exact:
  assumes "find (\<lambda>(idx, item). eligible used idx item \<and> exact_match t item) xs = Some (j, it)"
  shows "find_best_match_loop t used xs best = Some j"
  using assms
proof (induction xs arbitrary: best)
  case Nil
  then show ?case by simp
next
  case (Cons p xs)
  obtain idx item where p: "p = (idx, item)" by (cases p)
  show ?case
  proof (cases "eligible used idx item \<and> exact_match t item")
    case True
    with Cons.prems p show ?thesis
      by (simp add: eligible_def exact_match_def)
  next
    case False
    with Cons.prems p
    have "find (\<lambda>(idx, item). eligible used idx item \<and> exact_match t item) xs = Some (j, it)"
      by simp
    from Cons.IH[OF this] False p show ?thesis
      by (auto simp: eligible_def exact_match_def)
  qed
qed

lemma find_enumerate_first:
  assumes "i < length xs" "P (n + i, xs ! i)"
  shows "\<exists>j\<le>i. find P (enumerate n xs) = Some (n + j, xs ! j) \<and> P (n + j, xs ! j)
           \<and> (\<forall>k<j. \<not> P (n + k, xs ! k))"
  using assms
proof (induction xs arbitrary: n i)
  case Nil
  then show ?case by simp
next
  case (Cons x xs)
  show ?case
  proof (cases "P (n, x)")
    case True
    then show ?thesis by (intro exI[of _ 0]) simp
  next
    case False
    with Cons.prems obtain i' where i': "i = Suc i'" by (cases i) auto
    with Cons.prems have "i' < length xs" "P (Suc n + i', xs ! i')" by auto
    from Cons.IH[OF this] obtain j where j: "j \<le> i'"
      "find P (enumerate (Suc n) xs) = Some (Suc n + j, xs ! j)"
      "P (Suc n + j, xs ! j)" "\<forall>k<j. \<not> P (Suc n + k, xs ! k)" by blast
    show ?thesis
    proof (intro exI[of _ "Suc j"] conjI allI impI)
      show "Suc j \<le> i" using j i' by simp
      show "find P (enumerate n (x # xs)) = Some (n + Suc j, (x # xs) ! Suc j)"
        using j False by simp
      show "P (n + Suc j, (x # xs) ! Suc j)" using j by simp
      fix k assume "k < Suc j"
      then show "\<not> P (n + k, (x # xs) ! k)" using j(4) False by (cases k) auto
    qed
  qed
qed

lemma find_best_match_exact:
  assumes "i < length items" "eligible used i (items ! i)" "exact_match t (items ! i)"
  shows "\<exists>j\<le>i. find_best_match t items used = Some j
           \<and> eligible used j (items ! j) \<and> exact_match t (items ! j)
           \<and> (\<forall>k<j. \<not> (eligible used k (items ! k) \<and> exact_match t (items ! k)))"
proof -
  let ?P = "\<lambda>(idx, item). eligible used idx item \<and> exact_match t item"
  have "?P (0 + i, items ! i)" using assms by simp
  from find_enumerate_first[of i items ?P 0, OF assms(1) this]
  obtain j where j: "j \<le> i" "find ?P (enumerate 0 items) = Some (j, items ! j)"
    "?P (j, items ! j)" "\<forall>k<j. \<not> ?P (k, items ! k)" by auto
  have "t \<noteq> []"
    using assms(2,3) by (auto simp: eligible_def exact_match_def py_lower_def)
  with loop_first_exact[OF j(2)] have "find_best_match t items used = Some j"
    by (simp add: find_best_match_def)
  with j show ?thesis by auto
qed

lemma find_best_match_no_exact:
  assumes ne: "t \<noteq> []"
    and nx: "\<forall>i<length items. eligible used i (items ! i) \<longrightarrow> \<not> exact_match t (items ! i)"
  shows "(find_best_match t items used = None
            \<and> (\<forall>i<length items. eligible used i (items ! i) \<longrightarrow> source_score t (items ! i) \<le> 3 / 10))
       \<or> (\<exists>j<length items. find_best_match t items used = Some j
            \<and> eligible used j (items ! j) \<and> 3 / 10 < source_score t (items ! j)
            \<and> (\<forall>i<length items. eligible used i (items ! i) \<longrightarrow>
                   source_score t (items ! i) \<le> source_score t (items ! j)
                   \<and> (i < j \<longrightarrow> source_score t (items ! i) < source_score t (items ! j))))"
proof -
  let ?xs = "enumerate 0 items"
  let ?r = "best_scan t used ?xs (None, 0)"
  have nth: "\<And>k. k < length items \<Longrightarrow> ?xs ! k = (k, items ! k)"
    by (simp add: nth_enumerate_eq)
  have "\<forall>(idx, item) \<in> set ?xs. eligible used idx item \<longrightarrow> \<not> exact_match t item"
    using nx by (auto simp: in_set_enumerate_eq)
  from loop_as_scan[OF this, of "(None, 0)"] ne
  have res: "find_best_match t items used = (if snd ?r > 3 / 10 then fst ?r else None)"
    by (simp add: find_best_match_def)
  have upper: "\<And>i. i < length items \<Longrightarrow> eligible used i (items ! i)
                 \<Longrightarrow> source_score t (items ! i) \<le> snd ?r"
    using best_scan_upper[of _ ?xs used t "(None, 0)"] nth by simp
  from best_scan_result[of t used ?xs "(None, 0)"] consider
    (none) "?r = (None, 0)"
  | (some) k where "k < length ?xs" "fst ?r = Some (fst (?xs ! k))"
      "eligible used (fst (?xs ! k)) (snd (?xs ! k))"
      "snd ?r = source_score t (snd (?xs ! k))"
      "\<forall>k'<k. eligible used (fst (?xs ! k')) (snd (?xs ! k'))
              \<longrightarrow> source_score t (snd (?xs ! k')) < source_score t (snd (?xs ! k))"
    by blast
  then show ?thesis
  proof cases
    case none
    then have "find_best_match t items used = None" using res by simp
    moreover have "\<forall>i<length items. eligible used i (items ! i) \<longrightarrow> source_score t (items ! i) \<le> 3 / 10"
    proof (intro allI impI)
      fix i assume "i < length items" "eligible used i (items ! i)"
      from upper[OF this] none show "source_score t (items ! i) \<le> 3 / 10" by simp
    qed
    ultimately show ?thesis by blast
  next
    case some
    from some(1) have k: "k < length items" by simp
    have fk: "fst ?r = Some k" and ek: "eligible used k (items ! k)"
      and sk: "snd ?r = source_score t (items ! k)"
      using some(2,3,4) nth[OF k] by simp_all
    have before: "\<forall>i<k. eligible used i (items ! i) \<longrightarrow> source_score t (items ! i) < source_score t (items ! k)"
    proof (intro allI impI)
      fix i assume i: "i < k" "eligible used i (items ! i)"
      then have "i < length items" using k by simp
      from nth[OF this] nth[OF k] some(5) i show "source_score t (items ! i) < source_score t (items ! k)"
        by auto
    qed
    show ?thesis
    proof (cases "3 / 10 < source_score t (items ! k)")
      case True
      then have "find_best_match t items used = Some k" using res fk sk by simp
      moreover have "\<forall>i<length items. eligible used i (items ! i) \<longrightarrow>
                   source_score t (items ! i) \<le> source_score t (items ! k)
                   \<and> (i < k \<longrightarrow> source_score t (items ! i) < source_score t (items ! k))"
        using upper before sk by auto
      ultimately show ?thesis using k ek True by blast
    next
      case False
      then have "find_best_match t items used = None" using res sk by simp
      moreover have "\<forall>i<length items. eligible used i (items ! i) \<longrightarrow> source_score t (items ! i) \<le> 3 / 10"
      proof (intro allI impI)
        fix i assume "i < length items" "eligible used i (items ! i)"
        from upper[OF this] sk False show "source_score t (items ! i) \<le> 3 / 10" by simp
      qed
      ultimately show ?thesis by blast
    qed
  qed
qed

lemma source_score_gt_iff:
  "3 / 10 < source_score t item \<longleftrightarrow>
     starts_with_item (py_lower t) (py_lower (py_strip (get_text item)))
     \<or> (contains_either (py_lower t) (py_lower (py_strip (get_text item)))
          \<and> 3 / 10 < similarity (py_lower t) (py_lower (py_strip (get_text item))))"
  by (auto simp: source_score_def containment_score_def prefix_score_def max_def)

lemma find_best_match_cases:
  "(t = [] \<and> find_best_match t items used = None)
   \<or> (\<exists>j<length items. find_best_match t items used = Some j
         \<and> eligible used j (items ! j) \<and> exact_match t (items ! j)
         \<and> (\<forall>k<j. \<not> (eligible used k (items ! k) \<and> exact_match t (items ! k))))
   \<or> ((\<forall>i<length items. eligible used i (items ! i) \<longrightarrow> \<not> exact_match t (items ! i))
        \<and> find_best_match t items used = None
        \<and> (\<forall>i<length items. eligible used i (items ! i) \<longrightarrow> source_score t (items ! i) \<le> 3 / 10))
   \<or> ((\<forall>i<length items. eligible used i (items ! i) \<longrightarrow> \<not> exact_match t (items ! i))
        \<and> (\<exists>j<length items. find_best_match t items used = Some j
            \<and> eligible used j (items ! j) \<and> 3 / 10 < source_score t (items ! j)
            \<and> (\<forall>i<length items. eligible used i (items ! i) \<longrightarrow>
                   source_score t (items ! i) \<le> source_score t (items ! j)
                   \<and> (i < j \<longrightarrow> source_score t (items ! i) < source_score t (items ! j)))))"
proof (cases "t = []")
  case True
  then show ?thesis by (simp add: find_best_match_def)
next
  case ne: False
  show ?thesis
  proof (cases "\<exists>i<length items. eligible used i (items ! i) \<and> exact_match t (items ! i)")
    case True
    then obtain i where "i < length items" "eligible used i (items ! i)" "exact_match t (items ! i)"
      by blast
    from find_best_match_exact[OF this] obtain j where "j \<le> i" "find_best_match t items used = Some j"
      "eligible used j (items ! j)" "exact_match t (items ! j)"
      "\<forall>k<j. \<not> (eligible used k (items ! k) \<and> exact_match t (items ! k))" by blast
    moreover from \<open>j \<le> i\<close> \<open>i < length items\<close> have "j < length items" by simp
    ultimately show ?thesis by blast
  next
    case False
    then have nx: "\<forall>i<length items. eligible used i (items ! i) \<longrightarrow> \<not> exact_match t (items ! i)"
      by blast
    from find_best_match_no_exact[OF ne nx] nx show ?thesis by blast
  qed
qed
section \<open>The matcher: exact matches, selection and the prefix rule\<close>

text \<open>
  Claim C3. Whenever some eligible item (not yet used, not a table, with text left after
  trimming) has a trimmed text that equals the run text up to case, the matcher returns
  an item with that equality: the first such item of the list. No score enters the
  statement, neither another candidate's containment or prefix score nor the 0.3
  threshold.
\<close>

theorem exact_match_always_wins:
  assumes "i < length items" and "eligible used i (items ! i)" and "exact_match t (items ! i)"
  shows "\<exists>j\<le>i. find_best_match t items used = Some j
           \<and> eligible used j (items ! j) \<and> exact_match t (items ! j)
           \<and> (\<forall>k<j. \<not> (eligible used k (items ! k) \<and> exact_match t (items ! k)))"
  using assms by (rule find_best_match_exact)

text \<open>
  The run \<^verbatim>\<open>Hello World\<close> against an item \<^verbatim>\<open>Hello\<close>, which scores 0.8 by the prefix
  rule, followed by the exact match \<^verbatim>\<open>HELLO WORLD\<close>: the exact match is returned.
\<close>

theorem exact_match_always_wins_witness:
  "find_best_match ''Hello World'' [text_item ''P'' ''Hello'', text_item ''H1'' ''HELLO WORLD''] {} = Some 1
   \<and> source_score ''Hello World'' (text_item ''P'' ''Hello'') = 4 / 5"
proof -
  let ?items = "[text_item ''P'' ''Hello'', text_item ''H1'' ''HELLO WORLD'']"
  have a: "1 < length ?items" by simp
  have b: "eligible {} 1 (?items ! 1)" by code_simp
  have c: "exact_match ''Hello World'' (?items ! 1)" by code_simp
  have d: "\<not> exact_match ''Hello World'' (?items ! 0)" by code_simp
  from exact_match_always_wins[OF a b c] obtain j where j: "j \<le> 1"
    "find_best_match ''Hello World'' ?items {} = Some j" "exact_match ''Hello World'' (?items ! j)"
    by blast
  from j(1,3) d have "j = 1" by (cases j) auto
  moreover have "source_score ''Hello World'' (text_item ''P'' ''Hello'') = 4 / 5" by code_simp
  ultimately show ?thesis using j(2) by simp
qed

text \<open>
  Claim C4, as stated, fails. With the score of rule 2 as it is worded (intersection over
  the larger word set), the run \<^verbatim>\<open>a b\<close> scores 2/3 against \<^verbatim>\<open>a b c c c c c c\<close> and 2/5
  against \<^verbatim>\<open>x a b y z\<close>, yet the second item is returned; and the run \<^verbatim>\<open>x a a a\<close> scores
  1/2 against \<^verbatim>\<open>a a a\<close>, above 0.3, yet nothing is returned. The source divides by the
  length of the longer word list, which gives 1/4, 2/5 and 1/4.
\<close>

theorem word_set_score_selection_counterexample:
  "find_best_match ''a b'' [text_item ''P'' ''a b c c c c c c'', text_item ''P'' ''x a b y z''] {}
     = Some 1
   \<and> worded_score ''a b'' (text_item ''P'' ''a b c c c c c c'') = 2 / 3
   \<and> worded_score ''a b'' (text_item ''P'' ''x a b y z'') = 2 / 5
   \<and> worded_score ''a b'' (text_item ''P'' ''x a b y z'')
        < worded_score ''a b'' (text_item ''P'' ''a b c c c c c c'')
   \<and> find_best_match ''x a a a'' [text_item ''P'' ''a a a''] {} = None
   \<and> worded_score ''x a a a'' (text_item ''P'' ''a a a'') = 1 / 2
   \<and> 3 / 10 < worded_score ''x a a a'' (text_item ''P'' ''a a a'')"
proof -
  have a: "find_best_match ''a b''
             [text_item ''P'' ''a b c c c c c c'', text_item ''P'' ''x a b y z''] {} = Some 1"
    by code_simp
  have b: "worded_score ''a b'' (text_item ''P'' ''a b c c c c c c'') = 2 / 3" by code_simp
  have c: "worded_score ''a b'' (text_item ''P'' ''x a b y z'') = 2 / 5" by code_simp
  have d: "find_best_match ''x a a a'' [text_item ''P'' ''a a a''] {} = None" by code_simp
  have e: "worded_score ''x a a a'' (text_item ''P'' ''a a a'') = 1 / 2" by code_simp
  show ?thesis unfolding a b c d e by simp
qed

text \<open>
  Claim C4, amended: the score is the one the source computes, whose containment part
  divides by the length of the longer word list (\<open>source_score\<close>). An empty run text
  matches nothing. A returned item is eligible and either an exact match or, when no
  eligible item is an exact match, an item of score above 0.3 whose score no eligible
  item exceeds and no earlier eligible item reaches. When nothing is returned for a
  non-empty run text, no eligible item is an exact match or scores above 0.3. In
  particular an item that is neither an exact match nor a prefix match and whose overlap
  ratio is at most 0.3 (as the source computes it, or over word sets) is never returned.
\<close>

theorem best_match_selection:
  "find_best_match [] items used = None
   \<and> (\<forall>j. find_best_match t items used = Some j \<longrightarrow>
         j < length items \<and> eligible used j (items ! j)
         \<and> (exact_match t (items ! j)
             \<or> (3 / 10 < source_score t (items ! j)
                 \<and> (\<forall>i<length items. eligible used i (items ! i) \<longrightarrow>
                        \<not> exact_match t (items ! i)
                        \<and> source_score t (items ! i) \<le> source_score t (items ! j)
                        \<and> (i < j \<longrightarrow> source_score t (items ! i) < source_score t (items ! j))))))
   \<and> (find_best_match t items used = None \<longrightarrow>
         t = [] \<or> (\<forall>i<length items. eligible used i (items ! i) \<longrightarrow>
                      \<not> exact_match t (items ! i) \<and> source_score t (items ! i) \<le> 3 / 10))
   \<and> (\<forall>j<length items.
         \<not> exact_match t (items ! j)
         \<and> \<not> starts_with_item (py_lower t) (py_lower (py_strip (get_text (items ! j))))
         \<and> (similarity (py_lower t) (py_lower (py_strip (get_text (items ! j)))) \<le> 3 / 10
             \<or> word_set_ratio (py_lower t) (py_lower (py_strip (get_text (items ! j)))) \<le> 3 / 10)
         \<longrightarrow> find_best_match t items used \<noteq> Some j)"
proof -
  have A: "find_best_match [] items used = None" by (simp add: find_best_match_def)
  have B: "\<forall>j. find_best_match t items used = Some j \<longrightarrow>
         j < length items \<and> eligible used j (items ! j)
         \<and> (exact_match t (items ! j)
             \<or> (3 / 10 < source_score t (items ! j)
                 \<and> (\<forall>i<length items. eligible used i (items ! i) \<longrightarrow>
                        \<not> exact_match t (items ! i)
                        \<and> source_score t (items ! i) \<le> source_score t (items ! j)
                        \<and> (i < j \<longrightarrow> source_score t (items ! i) < source_score t (items ! j)))))"
  proof (rule allI, rule impI)
    fix j assume r: "find_best_match t items used = Some j"
    with find_best_match_cases[of t items used]
    show "j < length items \<and> eligible used j (items ! j)
         \<and> (exact_match t (items ! j)
             \<or> (3 / 10 < source_score t (items ! j)
                 \<and> (\<forall>i<length items. eligible used i (items ! i) \<longrightarrow>
                        \<not> exact_match t (items ! i)
                        \<and> source_score t (items ! i) \<le> source_score t (items ! j)
                        \<and> (i < j \<longrightarrow> source_score t (items ! i) < source_score t (items ! j)))))"
      by (elim disjE conjE exE) auto
  qed
  have C: "find_best_match t items used = None \<longrightarrow>
         t = [] \<or> (\<forall>i<length items. eligible used i (items ! i) \<longrightarrow>
                      \<not> exact_match t (items ! i) \<and> source_score t (items ! i) \<le> 3 / 10)"
  proof (rule impI)
    assume "find_best_match t items used = None"
    with find_best_match_cases[of t items used]
    show "t = [] \<or> (\<forall>i<length items. eligible used i (items ! i) \<longrightarrow>
                      \<not> exact_match t (items ! i) \<and> source_score t (items ! i) \<le> 3 / 10)"
      by (elim disjE conjE exE) auto
  qed
  have D: "\<forall>j<length items.
         \<not> exact_match t (items ! j)
         \<and> \<not> starts_with_item (py_lower t) (py_lower (py_strip (get_text (items ! j))))
         \<and> (similarity (py_lower t) (py_lower (py_strip (get_text (items ! j)))) \<le> 3 / 10
             \<or> word_set_ratio (py_lower t) (py_lower (py_strip (get_text (items ! j)))) \<le> 3 / 10)
         \<longrightarrow> find_best_match t items used \<noteq> Some j"
  proof (rule allI, rule impI, rule impI)
    fix j
    assume j: "j < length items"
      and h: "\<not> exact_match t (items ! j)
         \<and> \<not> starts_with_item (py_lower t) (py_lower (py_strip (get_text (items ! j))))
         \<and> (similarity (py_lower t) (py_lower (py_strip (get_text (items ! j)))) \<le> 3 / 10
             \<or> word_set_ratio (py_lower t) (py_lower (py_strip (get_text (items ! j)))) \<le> 3 / 10)"
    let ?tl = "py_lower t" and ?il = "py_lower (py_strip (get_text (items ! j)))"
    from h similarity_le_word_set_ratio[of ?tl ?il] have "similarity ?tl ?il \<le> 3 / 10" by auto
    with h have low: "\<not> 3 / 10 < source_score t (items ! j)" unfolding source_score_gt_iff by auto
    show "find_best_match t items used \<noteq> Some j"
    proof
      assume "find_best_match t items used = Some j"
      with find_best_match_cases[of t items used] h low show False
        by (elim disjE conjE exE) auto
    qed
  qed
  show ?thesis by (rule conjI[OF A conjI[OF B conjI[OF C D]]])
qed

text \<open>
  The run \<^verbatim>\<open>a b c d\<close> against items scoring 1/2, 3/4 and 1/2: the second is returned. The
  run \<^verbatim>\<open>w x y z\<close> against the item \<^verbatim>\<open>x\<close> has overlap 1/4 and no prefix: nothing is
  returned.
\<close>

theorem best_match_selection_witness:
  "find_best_match ''a b c d'' [text_item ''P'' ''b c'', text_item ''P'' ''b c d'', text_item ''P'' ''c d''] {} = Some 1
   \<and> source_score ''a b c d'' (text_item ''P'' ''b c'') = 1 / 2
   \<and> source_score ''a b c d'' (text_item ''P'' ''b c d'') = 3 / 4
   \<and> find_best_match ''w x y z'' [text_item ''P'' ''x''] {} = None
   \<and> similarity ''w x y z'' ''x'' = 1 / 4"
proof -
  let ?items = "[text_item ''P'' ''b c'', text_item ''P'' ''b c d'', text_item ''P'' ''c d'']"
  have e0: "eligible {} 0 (?items ! 0)" and e1: "eligible {} 1 (?items ! 1)" by code_simp+
  have s0: "source_score ''a b c d'' (?items ! 0) = 1 / 2" by code_simp
  have s1: "source_score ''a b c d'' (?items ! 1) = 3 / 4" by code_simp
  have s2: "source_score ''a b c d'' (?items ! 2) = 1 / 2" by code_simp
  have n0: "\<not> exact_match ''a b c d'' (?items ! 0)" by code_simp
  have n1: "\<not> exact_match ''a b c d'' (?items ! 1)" by code_simp
  have n2: "\<not> exact_match ''a b c d'' (?items ! 2)" by code_simp
  note sel = best_match_selection[of ?items "{}" "''a b c d''"]
  have "find_best_match ''a b c d'' ?items {} \<noteq> None"
  proof
    assume "find_best_match ''a b c d'' ?items {} = None"
    with sel have "\<forall>i<length ?items. eligible {} i (?items ! i) \<longrightarrow>
                      \<not> exact_match ''a b c d'' (?items ! i) \<and> source_score ''a b c d'' (?items ! i) \<le> 3 / 10"
      by blast
    moreover have "0 < length ?items" by simp
    ultimately have "source_score ''a b c d'' (?items ! 0) \<le> 3 / 10" using e0 by blast
    with s0 show False by simp
  qed
  then obtain j where j: "find_best_match ''a b c d'' ?items {} = Some j" by blast
  with sel have jl: "j < length ?items" and
    jj: "exact_match ''a b c d'' (?items ! j) \<or> (\<forall>i<length ?items. eligible {} i (?items ! i) \<longrightarrow>
                        source_score ''a b c d'' (?items ! i) \<le> source_score ''a b c d'' (?items ! j))"
    by blast+
  from jl have "j = 0 \<or> j = 1 \<or> j = 2" by auto
  with jj n0 n1 n2 have "source_score ''a b c d'' (?items ! 1) \<le> source_score ''a b c d'' (?items ! j)"
    using e1 by auto
  with \<open>j = 0 \<or> j = 1 \<or> j = 2\<close> s0 s1 s2 have "j = 1" by auto
  have w: "\<not> exact_match ''w x y z'' ([text_item ''P'' ''x''] ! 0)
     \<and> \<not> starts_with_item (py_lower ''w x y z'') (py_lower (py_strip (get_text ([text_item ''P'' ''x''] ! 0))))
     \<and> (similarity (py_lower ''w x y z'') (py_lower (py_strip (get_text ([text_item ''P'' ''x''] ! 0)))) \<le> 3 / 10
          \<or> word_set_ratio (py_lower ''w x y z'') (py_lower (py_strip (get_text ([text_item ''P'' ''x''] ! 0)))) \<le> 3 / 10)"
    by code_simp
  from best_match_selection[of "[text_item ''P'' ''x'']" "{}" "''w x y z''"] w
  have x: "find_best_match ''w x y z'' [text_item ''P'' ''x''] {} \<noteq> Some 0" by auto
  from best_match_selection[of "[text_item ''P'' ''x'']" "{}" "''w x y z''"] 
  have "\<forall>j. find_best_match ''w x y z'' [text_item ''P'' ''x''] {} = Some j \<longrightarrow> j < 1" by simp
  with x have "find_best_match ''w x y z'' [text_item ''P'' ''x''] {} = None"
    by (cases "find_best_match ''w x y z'' [text_item ''P'' ''x''] {}") auto
  moreover have "similarity ''w x y z'' ''x'' = 1 / 4" by code_simp
  ultimately show ?thesis using j \<open>j = 1\<close> s0 s1 by simp
qed

text \<open>
  Claim C5, as stated, fails. For the run \<^verbatim>\<open>a b b\<close> and the item \<^verbatim>\<open>a b\<close>, which is a prefix
  match and not an exact match, the loop leaves the best similarity at 0.8, while the
  larger of 0.8 and the word-set overlap ratio of rule 2 is 1.
\<close>

theorem prefix_rule_word_set_counterexample:
  "eligible {} 0 (text_item ''P'' ''a b'')
   \<and> \<not> exact_match ''a b b'' (text_item ''P'' ''a b'')
   \<and> starts_with_item ''a b b'' ''a b''
   \<and> update_prefix ''a b b'' ''a b'' 0 (update_partial ''a b b'' ''a b'' 0 (None, 0))
        = (Some 0, 4 / 5)
   \<and> max (4 / 5) (worded_containment_score ''a b b'' ''a b'') = 1"
proof -
  have a: "eligible {} 0 (text_item ''P'' ''a b'')" by code_simp
  have b: "\<not> exact_match ''a b b'' (text_item ''P'' ''a b'')" by code_simp
  have c: "starts_with_item ''a b b'' ''a b''" by code_simp
  have d: "update_prefix ''a b b'' ''a b'' 0 (update_partial ''a b b'' ''a b'' 0 (None, 0))
             = (Some 0, 4 / 5)" by code_simp
  have e: "max (4 / 5) (worded_containment_score ''a b b'' ''a b'') = 1" by code_simp
  from a b c d e show ?thesis by blast
qed

text \<open>
  Claim C5, amended: the containment score is the one of source line 219, the size of the
  word-set intersection over the length of the longer word list. For an eligible item
  that is not an exact match and whose first 20 lowercase characters (or all of them,
  when fewer) start the lowercase run text, the loop goes on with the best similarity
  raised to the larger of 0.8 and that containment score, unless it was at least as
  large already, and the best similarity is at least 0.8 after the item.
\<close>

theorem prefix_rule_score:
  assumes "eligible used idx item" and "\<not> exact_match t item"
    and "starts_with_item (py_lower t) (py_lower (py_strip (get_text item)))"
  shows "find_best_match_loop t used ((idx, item) # rest) best
           = find_best_match_loop t used rest
               (if snd best
                     < max (4 / 5) (containment_score (py_lower t) (py_lower (py_strip (get_text item))))
                then (Some idx,
                      max (4 / 5) (containment_score (py_lower t) (py_lower (py_strip (get_text item)))))
                else best)
         \<and> 4 / 5 \<le> snd (update_prefix (py_lower t) (py_lower (py_strip (get_text item))) idx
                          (update_partial (py_lower t) (py_lower (py_strip (get_text item))) idx best))"
proof -
  let ?tl = "py_lower t" and ?il = "py_lower (py_strip (get_text item))"
  let ?sc = "max (4 / 5) (containment_score ?tl ?il)"
  have upd: "update_prefix ?tl ?il idx (update_partial ?tl ?il idx best)
         = (if snd best < ?sc then (Some idx, ?sc) else best)"
    using assms(3)
    by (cases best) (auto simp: update_prefix_def update_partial_def containment_score_def max_def)
  have step: "find_best_match_loop t used ((idx, item) # rest) best
           = find_best_match_loop t used rest (update_prefix ?tl ?il idx (update_partial ?tl ?il idx best))"
    using assms(1,2) by (simp add: eligible_def exact_match_def)
  have "4 / 5 \<le> snd (if snd best < ?sc then (Some idx, ?sc) else best)"
    by (auto simp: max_def)
  with upd step show ?thesis by simp
qed

text \<open>
  The run \<^verbatim>\<open>Hello World\<close> and the item \<^verbatim>\<open>Hello\<close>: containment gives 1/2, the prefix rule
  0.8, and the item is selected with 0.8.
\<close>

theorem prefix_rule_score_witness:
  "find_best_match_loop ''Hello World'' {} [(0, text_item ''H1'' ''Hello'')] (None, 0) = Some 0
   \<and> containment_score ''hello world'' ''hello'' = 1 / 2
   \<and> update_prefix ''hello world'' ''hello'' 0 (update_partial ''hello world'' ''hello'' 0 (None, 0))
        = (Some 0, 4 / 5)"
proof -
  have a: "eligible {} 0 (text_item ''H1'' ''Hello'')" by code_simp
  have b: "\<not> exact_match ''Hello World'' (text_item ''H1'' ''Hello'')" by code_simp
  have c: "starts_with_item (py_lower ''Hello World'') (py_lower (py_strip (get_text (text_item ''H1'' ''Hello''))))"
    by code_simp
  have d: "containment_score ''hello world'' ''hello'' = 1 / 2" by code_simp
  have e: "containment_score (py_lower ''Hello World'') (py_lower (py_strip (get_text (text_item ''H1'' ''Hello'')))) = 1 / 2" by code_simp
  have f: "update_prefix ''hello world'' ''hello'' 0 (update_partial ''hello world'' ''hello'' 0 (None, 0))
        = (Some 0, 4 / 5)" by code_simp
  from prefix_rule_score[OF a b c, of "[]" "(None, 0)"] e have
    "find_best_match_loop ''Hello World'' {} [(0, text_item ''H1'' ''Hello'')] (None, 0) = Some 0"
    by simp
  with d f show ?thesis by blast
qed
section \<open>Properties of the text-block scan and the rewriter\<close>






lemma find_best_match_Some:
  assumes "find_best_match t items used = Some j"
  shows "j < length items \<and> eligible used j (items ! j)"
  using find_best_match_cases[of t items used] assms by (elim disjE conjE exE) auto


lemma match_text_blocks_idx:
  assumes "(m, Some i) \<in> set (match_text_blocks items used ms)"
  shows "i < length items \<and> i \<notin> used \<and> item_type (items ! i) \<noteq> ''Table''"
  using assms
proof (induction ms arbitrary: used)
  case Nil
  then show ?case by simp
next
  case (Cons m' ms)
  show ?case
  proof (cases "find_best_match (extract_text_from_bt_et (match_group m')) items used")
    case None
    with Cons.prems have "(m, Some i) \<in> set (match_text_blocks items used ms)" by auto
    from Cons.IH[OF this] show ?thesis .
  next
    case (Some j)
    from find_best_match_Some[OF Some] have j: "j < length items" "eligible used j (items ! j)" by auto
    from Cons.prems Some consider "i = j" | "(m, Some i) \<in> set (match_text_blocks items (insert j used) ms)"
      by auto
    then show ?thesis
    proof cases
      case 1
      with j show ?thesis by (simp add: eligible_def)
    next
      case 2
      from Cons.IH[OF 2] show ?thesis by simp
    qed
  qed
qed

lemma map_filter_snd_set:
  "i \<in> set (List.map_filter snd xs) \<longleftrightarrow> (\<exists>m. (m, Some i) \<in> set xs)"
  by (induction xs) (auto simp: List.map_filter_simps split: option.splits)

lemma match_text_blocks_distinct:
  "distinct (List.map_filter snd (match_text_blocks items used ms))"
proof (induction ms arbitrary: used)
  case Nil
  then show ?case by (simp add: List.map_filter_simps)
next
  case (Cons m' ms)
  show ?case
  proof (cases "find_best_match (extract_text_from_bt_et (match_group m')) items used")
    case None
    then show ?thesis using Cons.IH[of used] by (simp add: List.map_filter_simps)
  next
    case (Some j)
    have "j \<notin> set (List.map_filter snd (match_text_blocks items (insert j used) ms))"
    proof
      assume "j \<in> set (List.map_filter snd (match_text_blocks items (insert j used) ms))"
      then obtain m where "(m, Some j) \<in> set (match_text_blocks items (insert j used) ms)"
        by (auto simp: map_filter_snd_set)
      from match_text_blocks_idx[OF this] show False by simp
    qed
    then show ?thesis using Some Cons.IH[of "insert j used"] by (simp add: List.map_filter_simps)
  qed
qed

lemma py_in_ET_Cons2:
  "py_in ''ET'' (c # d # cs) = ((c = CHR ''E'' \<and> d = CHR ''T'') \<or> py_in ''ET'' (d # cs))"
  by (simp add: startswith_def)

lemma find_ET_None_iff: "find_ET s = None \<longleftrightarrow> \<not> py_in ''ET'' s"
proof (induction s rule: find_ET.induct)
  case (1 c d cs)
  then show ?case unfolding py_in_ET_Cons2 by auto
qed (simp_all add: startswith_def)

lemma py_in_ET_space: "is_space c \<Longrightarrow> py_in ''ET'' (c # cs) = py_in ''ET'' cs"
  by (auto simp: startswith_def is_space_def)

lemma py_in_ET_dropWhile: "py_in ''ET'' (dropWhile is_space s) = py_in ''ET'' s"
  by (induction s) (simp_all add: py_in_ET_space del: py_in.simps)

lemma match_bt_et_None_iff: "match_bt_et s = None \<longleftrightarrow> \<not> bt_et_at s"
proof (cases s)
  case Nil
  then show ?thesis by (simp add: match_bt_et_def bt_et_at_def)
next
  case (Cons b s1)
  show ?thesis
  proof (cases s1)
    case Nil
    with Cons show ?thesis by (simp add: match_bt_et_def bt_et_at_def)
  next
    case (Cons t s2)
    note s1 = this
    show ?thesis
    proof (cases s2)
      case Nil
      with s1 \<open>s = b # s1\<close> show ?thesis by (simp add: match_bt_et_def bt_et_at_def)
    next
      case (Cons w rest)
      have s: "s = b # t # w # rest" using \<open>s = b # s1\<close> s1 Cons by simp
      show ?thesis
      proof (cases "b = CHR ''B'' \<and> t = CHR ''T'' \<and> is_space w")
        case False
        then show ?thesis using s by (auto simp: match_bt_et_def bt_et_at_def)
      next
        case True
        then have w: "is_space w" by simp
        have "py_in ''ET'' (dropWhile is_space (w # rest)) = py_in ''ET'' rest"
          using py_in_ET_dropWhile[of "w # rest"] py_in_ET_space[OF w, of rest] by simp
        then have "find_ET (dropWhile is_space (w # rest)) = None \<longleftrightarrow> \<not> py_in ''ET'' rest"
          using find_ET_None_iff[of "dropWhile is_space (w # rest)"] by simp
        then show ?thesis using s True
          by (auto simp: match_bt_et_def bt_et_at_def Let_def split: option.splits)
      qed
    qed
  qed
qed

lemma finditer_no_block: "\<not> has_bt_et s \<Longrightarrow> finditer match_bt_et pos s = []"
proof (induction s arbitrary: pos)
  case Nil
  then show ?case by (simp add: finditer.simps(1) match_bt_et_def)
next
  case (Cons c cs)
  then have "match_bt_et (c # cs) = None" "\<not> has_bt_et cs"
    by (simp_all add: match_bt_et_None_iff)
  with Cons.IH[of "Suc pos"] show ?case by (simp add: finditer.simps(2))
qed


text \<open>What \<open>py_in\<close> and \<open>has_bt_et\<close> say, without recursion.\<close>

lemma startswith_iff: "startswith s p \<longleftrightarrow> (\<exists>post. s = p @ post)"
proof
  assume "startswith s p"
  then have "s = p @ drop (length p) s"
    by (metis append_take_drop_id startswith_def)
  then show "\<exists>post. s = p @ post" ..
next
  assume "\<exists>post. s = p @ post"
  then show "startswith s p" by (auto simp: startswith_def)
qed

lemma py_in_iff: "py_in p s \<longleftrightarrow> (\<exists>pre post. s = pre @ p @ post)"
proof (induction s)
  case Nil
  then show ?case by simp
next
  case (Cons c cs)
  show ?case
  proof
    assume "py_in p (c # cs)"
    then consider "startswith (c # cs) p" | "py_in p cs" by auto
    then show "\<exists>pre post. c # cs = pre @ p @ post"
    proof cases
      case 1
      then obtain post where "c # cs = p @ post" by (auto simp: startswith_iff)
      then have "c # cs = [] @ p @ post" by simp
      then show ?thesis by blast
    next
      case 2
      with Cons.IH obtain pre post where "cs = pre @ p @ post" by blast
      then have "c # cs = (c # pre) @ p @ post" by simp
      then show ?thesis by blast
    qed
  next
    assume "\<exists>pre post. c # cs = pre @ p @ post"
    then obtain pre post where e: "c # cs = pre @ p @ post" by blast
    show "py_in p (c # cs)"
    proof (cases pre)
      case Nil
      with e have "startswith (c # cs) p" by (auto simp: startswith_iff)
      then show ?thesis by simp
    next
      case (Cons x pre')
      with e have "cs = pre' @ p @ post" by simp
      with Cons.IH have "py_in p cs" by blast
      then show ?thesis by simp
    qed
  qed
qed

lemma bt_et_at_iff:
  "bt_et_at s \<longleftrightarrow> (\<exists>w mid post. s = ''BT'' @ w # mid @ ''ET'' @ post \<and> is_space w)"
proof
  assume "bt_et_at s"
  then obtain w rest where s: "s = CHR ''B'' # CHR ''T'' # w # rest" and w: "is_space w"
    and r: "py_in ''ET'' rest"
    by (auto simp: bt_et_at_def split: list.splits)
  from r obtain mid post where "rest = mid @ ''ET'' @ post" by (auto simp: py_in_iff)
  with s w show "\<exists>w mid post. s = ''BT'' @ w # mid @ ''ET'' @ post \<and> is_space w" by auto
next
  assume "\<exists>w mid post. s = ''BT'' @ w # mid @ ''ET'' @ post \<and> is_space w"
  then obtain w mid post where s: "s = ''BT'' @ w # mid @ ''ET'' @ post" and w: "is_space w" by blast
  have "py_in ''ET'' (mid @ ''ET'' @ post)" unfolding py_in_iff by blast
  with s w show "bt_et_at s" by (simp add: bt_et_at_def)
qed

lemma has_bt_et_iff:
  "has_bt_et s \<longleftrightarrow> (\<exists>pre w mid post. s = pre @ ''BT'' @ w # mid @ ''ET'' @ post \<and> is_space w)"
proof (induction s)
  case Nil
  then show ?case by simp
next
  case (Cons c cs)
  show ?case
  proof
    assume "has_bt_et (c # cs)"
    then consider "bt_et_at (c # cs)" | "has_bt_et cs" by auto
    then show "\<exists>pre w mid post. c # cs = pre @ ''BT'' @ w # mid @ ''ET'' @ post \<and> is_space w"
    proof cases
      case 1
      then obtain w mid post where "c # cs = ''BT'' @ w # mid @ ''ET'' @ post" "is_space w"
        unfolding bt_et_at_iff by blast
      then have "c # cs = [] @ ''BT'' @ w # mid @ ''ET'' @ post \<and> is_space w" by simp
      then show ?thesis by blast
    next
      case 2
      with Cons.IH obtain pre w mid post where "cs = pre @ ''BT'' @ w # mid @ ''ET'' @ post" "is_space w"
        by blast
      then have "c # cs = (c # pre) @ ''BT'' @ w # mid @ ''ET'' @ post \<and> is_space w" by simp
      then show ?thesis by blast
    qed
  next
    assume "\<exists>pre w mid post. c # cs = pre @ ''BT'' @ w # mid @ ''ET'' @ post \<and> is_space w"
    then obtain pre w mid post where e: "c # cs = pre @ ''BT'' @ w # mid @ ''ET'' @ post"
      and w: "is_space w" by blast
    show "has_bt_et (c # cs)"
    proof (cases pre)
      case Nil
      with e w have "bt_et_at (c # cs)" unfolding bt_et_at_iff by auto
      then show ?thesis by simp
    next
      case (Cons x pre')
      with e have "cs = pre' @ ''BT'' @ w # mid @ ''ET'' @ post" by simp
      with w Cons.IH have "has_bt_et cs" by blast
      then show ?thesis by simp
    qed
  qed
qed










section \<open>The rewriter: byte preservation, decoding failures, streams without text\<close>



lemma decode_latin1_total: "decode_latin1 content_bytes \<noteq> None"
  by (simp add: decode_latin1_def)




text \<open>
  Claim C10. On a stream without a text block (nowhere \<^verbatim>\<open>BT\<close>, a whitespace character
  and later \<^verbatim>\<open>ET\<close>) the rewriter returns its input, whatever the items are.
\<close>

theorem no_text_block_identity:
  "\<not> has_bt_et content \<Longrightarrow> insert_marked_content_by_bbox content items = content"
  by (simp add: insert_marked_content_by_bbox_def
      decode_latin1_def finditer_no_block)

text \<open>A stream that paints a rectangle and has \<^verbatim>\<open>ET\<close> only before \<^verbatim>\<open>BT\<close>.\<close>

theorem no_text_block_identity_witness:
  "\<not> has_bt_et ''q 0.5 g 10 10 100 50 re f Q ET BT''
   \<and> insert_marked_content_by_bbox ''q 0.5 g 10 10 100 50 re f Q ET BT''
         [text_item ''P'' ''Hello'']
       = ''q 0.5 g 10 10 100 50 re f Q ET BT''"
proof -
  have n: "\<not> has_bt_et ''q 0.5 g 10 10 100 50 re f Q ET BT''" by code_simp
  from no_text_block_identity[OF n, of "[text_item ''P'' ''Hello'']"] n
  show ?thesis by simp
qed

section \<open>Properties of the builder's identifiers and of the emitted identifiers\<close>

lemma upt_head: "[c..<c + Suc n] = c # [c + 1..<c + 1 + n]"
  by (simp add: upt_conv_Cons del: upt_Suc)

lemma upt_split: "[c..<c + (a + b)] = [c..<c + a] @ [c + a..<c + a + b]"
proof -
  have "[c..<(c + a) + b] = [c..<c + a] @ [c + a..<c + a + b]"
    by (rule upt_add_eq_append) simp
  then show ?thesis by (simp only: add.assoc)
qed

lemma build_cells_mcids:
  "concat (map referenced_mcids (fst (build_cells cs c))) = [c..<c + length cs]
   \<and> snd (build_cells cs c) = c + length cs"
proof (induction cs arbitrary: c)
  case Nil
  then show ?case by simp
next
  case (Cons x cs)
  have "[c..<c + length (x # cs)] = c # [c + 1..<c + 1 + length cs]"
    using upt_head[of c "length cs"] by simp
  with Cons.IH[of "c + 1"] show ?case
    by (simp add: Let_def split_beta del: upt_Suc)
qed


lemma build_rows_mcids:
  "concat (map referenced_mcids (fst (build_rows rows c))) = [c..<c + sum_list (map length rows)]
   \<and> snd (build_rows rows c) = c + sum_list (map length rows)"
proof (induction rows arbitrary: c)
  case Nil
  then show ?case by simp
next
  case (Cons row rows)
  let ?n = "sum_list (map length rows)"
  have s: "sum_list (map length (row # rows)) = length row + ?n" by simp
  obtain es c1 where b: "build_cells row c = (es, c1)" by (cases "build_cells row c")
  with build_cells_mcids[of row c]
  have es: "concat (map referenced_mcids es) = [c..<c + length row]" and c1: "c1 = c + length row"
    by simp_all
  obtain rs c2 where r: "build_rows rows c1 = (rs, c2)" by (cases "build_rows rows c1")
  with Cons.IH[of c1]
  have rs: "concat (map referenced_mcids rs) = [c1..<c1 + ?n]" and c2: "c2 = c1 + ?n"
    by simp_all
  have "build_rows (row # rows) c = (Group ''TR'' None es # rs, c2)"
    using b r by simp
  then show ?case
    unfolding s upt_split using es rs c1 c2 by (simp del: upt_Suc)
qed

lemma build_elements_mcids:
  "concat (map referenced_mcids (fst (build_elements items c))) = [c..<c + mcid_count items]
   \<and> snd (build_elements items c) = c + mcid_count items"
proof (induction items arbitrary: c)
  case Nil
  then show ?case by (simp add: mcid_count_def)
next
  case (Cons item items)
  let ?n = "mcid_count items"
  show ?case
  proof (cases "item_type item = ''Table''")
    case True
    have s: "mcid_count (item # items) = cell_count item + ?n"
      using True by (simp add: mcid_count_def)
    obtain trs c1 where b: "build_rows (get_table_data item) c = (trs, c1)"
      by (cases "build_rows (get_table_data item) c")
    with build_rows_mcids[of "get_table_data item" c]
    have trs: "concat (map referenced_mcids trs) = [c..<c + cell_count item]"
      and c1: "c1 = c + cell_count item"
      by (simp_all add: cell_count_def)
    obtain es c2 where r: "build_elements items c1 = (es, c2)" by (cases "build_elements items c1")
    with Cons.IH[of c1]
    have es: "concat (map referenced_mcids es) = [c1..<c1 + ?n]" and c2: "c2 = c1 + ?n"
      by simp_all
    have "build_elements (item # items) c = (Group ''Table'' None trs # es, c2)"
      using True b r by simp
    then show ?thesis
      unfolding s upt_split using trs es c1 c2 by (simp del: upt_Suc)
  next
    case False
    have s: "mcid_count (item # items) = Suc ?n"
      using False by (simp add: mcid_count_def)
    obtain es c2 where r: "build_elements items (c + 1) = (es, c2)"
      by (cases "build_elements items (c + 1)")
    with Cons.IH[of "c + 1"]
    have es: "concat (map referenced_mcids es) = [c + 1..<c + 1 + ?n]" and c2: "c2 = c + 1 + ?n"
      by simp_all
    have "build_elements (item # items) c
            = (Marked (item_type item) (Some (take 100 (get_text item))) c # es, c2)"
      using False r by simp
    then show ?thesis
      unfolding s upt_head using es c2 by (simp del: upt_Suc)
  qed
qed

lemma referenced_section: "referenced_mcids (build_section p items) = [0..<mcid_count items]"
  using build_elements_mcids[of items 0] by (simp add: build_section_def del: upt_Suc)

lemma mcid_count_no_tables:
  "\<forall>item \<in> set items. item_type item \<noteq> ''Table'' \<Longrightarrow> mcid_count items = length items"
  by (induction items) (simp_all add: mcid_count_def)

lemma mcid_count_ge_length:
  "\<forall>item \<in> set items. item_type item = ''Table'' \<longrightarrow> 1 \<le> cell_count item
     \<Longrightarrow> length items \<le> mcid_count items"
proof (induction items)
  case Nil
  then show ?case by simp
next
  case (Cons item items)
  then have "length items \<le> mcid_count items" by simp
  moreover have "1 \<le> (if item_type item = ''Table'' then cell_count item else 1)"
    using Cons.prems by simp
  ultimately show ?case by (simp add: mcid_count_def)
qed

lemma emitted_in_range:
  assumes "i \<in> set (emitted_mcids content items)"
  shows "i < length items \<and> item_type (items ! i) \<noteq> ''Table''"
proof -
  from assms obtain m where "(m, Some i) \<in> set (text_block_matches content items)"
    by (auto simp: emitted_mcids_def decode_latin1_def map_filter_snd_set)
  then show ?thesis unfolding text_block_matches_def using match_text_blocks_idx by blast
qed

lemma emitted_distinct: "distinct (emitted_mcids content items)"
  by (simp add: emitted_mcids_def decode_latin1_def text_block_matches_def match_text_blocks_distinct)

section \<open>Emitted and referenced identifiers of a page\<close>

text \<open>
  Claim C1, as stated, fails: a page whose only item matches no text block has the
  identifier 0 referenced by its structure element and nothing emitted in its stream.
\<close>

theorem mcid_sets_equal_counterexample:
  "set (emitted_mcids ''BT (Other) Tj ET'' [text_item ''P'' ''Hello''])
     \<noteq> set (referenced_mcids (build_section 0 [text_item ''P'' ''Hello'']))"
  by code_simp

text \<open>
  Claim C1, amended. On a page without table items the structure elements reference
  exactly the identifiers 0 to n - 1, n being the number of items, each once and in
  order; the identifiers emitted in the rewritten stream are pairwise distinct and are
  among them; and the two sets are equal exactly when every item of the page was matched
  to a text block.
\<close>

theorem mcid_sets_without_tables:
  assumes "\<forall>item \<in> set items. item_type item \<noteq> ''Table''"
  shows "referenced_mcids (build_section p items) = [0..<length items]
         \<and> distinct (emitted_mcids content items)
         \<and> set (emitted_mcids content items) \<subseteq> set (referenced_mcids (build_section p items))
         \<and> (set (emitted_mcids content items) = set (referenced_mcids (build_section p items))
              \<longleftrightarrow> (\<forall>i<length items. i \<in> set (emitted_mcids content items)))"
proof -
  have r: "referenced_mcids (build_section p items) = [0..<length items]"
    using referenced_section[of p items] mcid_count_no_tables[OF assms] by simp
  have sub: "set (emitted_mcids content items) \<subseteq> {0..<length items}"
    using emitted_in_range[of _ content items] by auto
  have "set (emitted_mcids content items) = {0..<length items}
          \<longleftrightarrow> (\<forall>i<length items. i \<in> set (emitted_mcids content items))"
    using sub by auto
  with r sub emitted_distinct[of content items] show ?thesis by simp
qed

text \<open>Two items, both matched, in the opposite order of their text blocks.\<close>

theorem mcid_sets_without_tables_witness:
  "emitted_mcids ''BT (Title) Tj ET BT (Hello) Tj ET'' [text_item ''P'' ''Hello'', text_item ''H1'' ''Title'']
     = [1, 0]
   \<and> referenced_mcids (build_section 0 [text_item ''P'' ''Hello'', text_item ''H1'' ''Title'']) = [0, 1]
   \<and> set (emitted_mcids ''BT (Title) Tj ET BT (Hello) Tj ET''
          [text_item ''P'' ''Hello'', text_item ''H1'' ''Title''])
       = set (referenced_mcids (build_section 0 [text_item ''P'' ''Hello'', text_item ''H1'' ''Title'']))"
proof -
  let ?items = "[text_item ''P'' ''Hello'', text_item ''H1'' ''Title'']"
  have h: "\<forall>item \<in> set ?items. item_type item \<noteq> ''Table''" by (simp add: text_item_def)
  have e: "emitted_mcids ''BT (Title) Tj ET BT (Hello) Tj ET'' ?items = [1, 0]" by code_simp
  have "[0..<length ?items] = [0, 1]" by code_simp
  with mcid_sets_without_tables[OF h, of 0 "''BT (Title) Tj ET BT (Hello) Tj ET''"] e
  show ?thesis by auto
qed

text \<open>
  Claim C2, as stated, fails: when the only item of a page is matched, the emitted and
  the referenced identifiers are the same set, so the inclusion is not strict.
\<close>

theorem emitted_strict_subset_counterexample:
  "\<not> (set (emitted_mcids ''BT (Hello) Tj ET'' [text_item ''P'' ''Hello''])
         \<subset> set (referenced_mcids (build_section 0 [text_item ''P'' ''Hello''])))"
  by code_simp

text \<open>
  Claim C2, amended. On a page whose table items each have at least one cell (the table
  extractor only emits tables with two rows of at least one cell), every identifier
  emitted in the rewritten stream is referenced by a structure element of the page, and
  no identifier is referenced twice. The inclusion can be an equality.
\<close>

theorem emitted_subset_of_referenced:
  assumes "\<forall>item \<in> set items. item_type item = ''Table'' \<longrightarrow> 1 \<le> cell_count item"
  shows "set (emitted_mcids content items) \<subseteq> set (referenced_mcids (build_section p items))
         \<and> distinct (referenced_mcids (build_section p items))"
proof -
  have "set (emitted_mcids content items) \<subseteq> {0..<mcid_count items}"
  proof
    fix i assume "i \<in> set (emitted_mcids content items)"
    from emitted_in_range[OF this] have "i < length items" by simp
    with mcid_count_ge_length[OF assms] show "i \<in> {0..<mcid_count items}" by simp
  qed
  then show ?thesis by (simp add: referenced_section)
qed

text \<open>A page with a table of two rows of two cells and a paragraph that is matched.\<close>

theorem emitted_subset_of_referenced_witness:
  "emitted_mcids ''BT (Hello) Tj ET''
      [table_item (\<lambda>x. x) 0 800 ((0, 0, 100, 100),
         [[\<lparr>cell_text = ''Name'', is_header = True\<rparr>, \<lparr>cell_text = ''Age'', is_header = True\<rparr>],
          [\<lparr>cell_text = ''Ann'', is_header = False\<rparr>, \<lparr>cell_text = ''30'', is_header = False\<rparr>]]),
       text_item ''P'' ''Hello''] = [1]
   \<and> referenced_mcids (build_section 0
      [table_item (\<lambda>x. x) 0 800 ((0, 0, 100, 100),
         [[\<lparr>cell_text = ''Name'', is_header = True\<rparr>, \<lparr>cell_text = ''Age'', is_header = True\<rparr>],
          [\<lparr>cell_text = ''Ann'', is_header = False\<rparr>, \<lparr>cell_text = ''30'', is_header = False\<rparr>]]),
       text_item ''P'' ''Hello'']) = [0, 1, 2, 3, 4]"
proof -
  let ?items = "[table_item (\<lambda>x. x) 0 800 ((0, 0, 100, 100),
         [[\<lparr>cell_text = ''Name'', is_header = True\<rparr>, \<lparr>cell_text = ''Age'', is_header = True\<rparr>],
          [\<lparr>cell_text = ''Ann'', is_header = False\<rparr>, \<lparr>cell_text = ''30'', is_header = False\<rparr>]]),
       text_item ''P'' ''Hello'']"
  have h: "\<forall>item \<in> set ?items. item_type item = ''Table'' \<longrightarrow> 1 \<le> cell_count item"
    by (simp add: text_item_def table_item_def cell_count_def get_table_data_def)
  have e: "emitted_mcids ''BT (Hello) Tj ET'' ?items = [1]" by code_simp
  have r: "referenced_mcids (build_section 0 ?items) = [0, 1, 2, 3, 4]" by code_simp
  from emitted_subset_of_referenced[OF h, of "''BT (Hello) Tj ET''" 0] e r
  show ?thesis by simp
qed

section \<open>Properties of the table extractor\<close>

lemma make_row_header: "\<forall>c \<in> set (make_row hdr row). is_header c = hdr"
  by (induction row) (auto simp: make_row_def List.map_filter_simps split: option.splits)

lemma table_cells_rows_nonempty: "\<forall>row \<in> set (table_cells ext). row \<noteq> []"
  by (cases ext) (auto simp: table_cells_def)

lemma detect_table_rows:
  assumes "detect_table t = Some (b, cells)"
  shows "2 \<le> length cells \<and> (\<forall>row \<in> set cells. row \<noteq> [])"
proof -
  from assms obtain ext where "extracted t = Some ext" "cells = table_cells ext"
    "length (table_cells ext) > 1"
    by (auto simp: detect_table_def split: option.splits if_splits)
  then show ?thesis using table_cells_rows_nonempty[of ext] by auto
qed

lemma detect_table_discards:
  assumes "extracted t = Some ext" "length (table_cells ext) < 2"
  shows "detect_table t = None"
  using assms by (auto simp: detect_table_def)

lemma sum_list_length_ge:
  "\<forall>row \<in> set rows. row \<noteq> [] \<Longrightarrow> length rows \<le> sum_list (map length rows)"
proof (induction rows)
  case Nil
  then show ?case by simp
next
  case (Cons r rows)
  then have "1 \<le> length r" by (cases r) auto
  with Cons show ?case by simp
qed

lemma detect_table_cell_count:
  assumes "detect_table t = Some (b, cells)"
  shows "2 \<le> sum_list (map length cells)"
  using detect_table_rows[OF assms] sum_list_length_ge[of cells] by simp


lemma table_cells_with_header:
  assumes "make_row True first_row \<noteq> []"
  shows "table_cells (first_row # body_rows)
           = make_row True first_row
               # filter (\<lambda>table_row. table_row \<noteq> []) (map (make_row False) body_rows)"
  using assms by (simp add: table_cells_def)

lemma table_cells_without_header:
  assumes "make_row True first_row = []"
  shows "\<forall>row \<in> set (table_cells (first_row # body_rows)). \<forall>c \<in> set row. \<not> is_header c"
  using assms make_row_header[of False] by (auto simp: table_cells_def)

text \<open>
  Claim C6 against the code. The first extracted row has no cell that is kept (one cell
  is \<^verbatim>\<open>None\<close>, one is empty), and two body rows follow: the table is emitted with two
  rows, neither of which is a header row. This holds with the body rows as short as
  their kept cells and with all rows of the same width.
\<close>

theorem headerless_table_emitted:
  "detect_table \<lparr>raw_bbox = (0, 0, 100, 100),
                  extracted = Some [[None, Some ''''], [Some ''Ann''], [Some ''Bob'']]\<rparr>
     = Some ((0, 0, 100, 100),
             [[\<lparr>cell_text = ''Ann'', is_header = False\<rparr>],
              [\<lparr>cell_text = ''Bob'', is_header = False\<rparr>]])
   \<and> detect_table \<lparr>raw_bbox = (0, 0, 100, 100),
                  extracted = Some [[None, Some ''''], [Some ''Ann'', None], [Some ''Bob'', None]]\<rparr>
     = Some ((0, 0, 100, 100),
             [[\<lparr>cell_text = ''Ann'', is_header = False\<rparr>],
              [\<lparr>cell_text = ''Bob'', is_header = False\<rparr>]])"
  by code_simp
section \<open>Properties of the layout classifier\<close>

lemma fold_span_step:
  "fold span_step spans (t, m, b)
     = (t @ concat (map (\<lambda>sp. span_text sp @ '' '') spans),
        Max (insert m (span_size ` set spans)),
        b \<or> (\<exists>sp \<in> set spans. span_flags sp AND 2 \<noteq> 0))"
proof (induction spans arbitrary: t m b)
  case Nil
  then show ?case by simp
next
  case (Cons sp spans)
  have "Max (insert (max m (span_size sp)) (span_size ` set spans))
          = Max (insert m (insert (span_size sp) (span_size ` set spans)))"
  proof (cases "set spans = {}")
    case True
    then show ?thesis by (simp add: max.commute)
  next
    case False
    then have ne: "span_size ` set spans \<noteq> {}" by simp
    have fin: "finite (span_size ` set spans)" by simp
    show ?thesis
      using Max_insert[OF fin ne, of "max m (span_size sp)"]
        Max_insert[OF fin ne, of "span_size sp"]
        Max_insert[of "insert (span_size sp) (span_size ` set spans)" m]
      by (simp add: max.assoc)
  qed
  with Cons.IH[of "t @ span_text sp @ '' ''" "max m (span_size sp)"
      "if span_flags sp AND 2 \<noteq> 0 then True else b"]
  show ?case by (auto simp: span_step_def)
qed

lemma block_style_eq:
  "block_style lines
     = (concat (map (\<lambda>sp. span_text sp @ '' '') (concat lines)),
        Max (insert 0 (span_size ` set (concat lines))),
        \<exists>sp \<in> set (concat lines). span_flags sp AND 2 \<noteq> 0)"
  using fold_span_step[of "concat lines" "[]" 0 False] by (simp add: block_style_def)


lemma tag_of_not_table: "tag_of m b \<noteq> ''Table''"
  by (simp add: tag_of_def)

lemma classify_block_not_table:
  "classify_block fl page_num height table_bboxes b = Some item \<Longrightarrow> item_type item \<noteq> ''Table''"
  by (auto simp: classify_block_def tag_of_not_table split: option.splits if_splits prod.splits)

text \<open>
  What the code does: a block of text lines that lies inside no table region and whose
  text is not empty after trimming gives an item, and its tag is \<^verbatim>\<open>H1\<close> exactly when the
  largest font size of its spans exceeds 14, else \<^verbatim>\<open>H2\<close> exactly when that size exceeds
  12 or some span has bit 1 of its flags set, else \<^verbatim>\<open>P\<close>.
\<close>

lemma classify_block_tag:
  assumes "block_lines b = Some lines"
    and "\<not> (\<exists>table_bbox \<in> set table_bboxes. in_table fl (block_bbox b) table_bbox)"
    and "py_strip (concat (map (\<lambda>sp. span_text sp @ '' '') (concat lines))) \<noteq> []"
  shows "\<exists>item. classify_block fl page_num height table_bboxes b = Some item
           \<and> item_text item = Some (py_strip (concat (map (\<lambda>sp. span_text sp @ '' '') (concat lines))))
           \<and> item_type item =
               (if Max (insert 0 (span_size ` set (concat lines))) > 14 then ''H1''
                else if Max (insert 0 (span_size ` set (concat lines))) > 12
                        \<or> (\<exists>sp \<in> set (concat lines). span_flags sp AND 2 \<noteq> 0) then ''H2''
                else ''P'')"
  using assms by (simp add: classify_block_def block_style_eq tag_of_def)

text \<open>
  The block \<^verbatim>\<open>Invoice Total: $500\<close> beside a table region, with no flag set: at font size
  16 it is \<^verbatim>\<open>H1\<close>, at font size 11 it is \<^verbatim>\<open>P\<close>.
\<close>

lemma classify_block_scenario:
  "map_option item_type
     (classify_block (\<lambda>x. x) 0 792 [(0, 0, 100, 100)]
        (one_span_block (72, 700, 300, 720) ''Invoice Total: $500'' 16 0)) = Some ''H1''
   \<and> map_option item_type
     (classify_block (\<lambda>x. x) 0 792 [(0, 0, 100, 100)]
        (one_span_block (72, 700, 300, 720) ''Invoice Total: $500'' 11 0)) = Some ''P''"
proof -
  let ?tb = "[(0, 0, 100, 100)] :: box list"
  let ?b16 = "one_span_block (72, 700, 300, 720) ''Invoice Total: $500'' 16 0"
  let ?b11 = "one_span_block (72, 700, 300, 720) ''Invoice Total: $500'' 11 0"
  let ?l16 = "[[\<lparr>span_text = ''Invoice Total: $500'', span_size = 16, span_flags = 0\<rparr>]]"
  let ?l11 = "[[\<lparr>span_text = ''Invoice Total: $500'', span_size = 11, span_flags = 0\<rparr>]]"
  have a16: "block_lines ?b16 = Some ?l16" and a11: "block_lines ?b11 = Some ?l11"
    by (simp_all add: one_span_block_def)
  have n16: "\<not> (\<exists>table_bbox \<in> set ?tb. in_table (\<lambda>x. x) (block_bbox ?b16) table_bbox)"
    and n11: "\<not> (\<exists>table_bbox \<in> set ?tb. in_table (\<lambda>x. x) (block_bbox ?b11) table_bbox)"
    by (simp_all add: one_span_block_def in_table_def)
  have t16: "py_strip (concat (map (\<lambda>sp. span_text sp @ '' '') (concat ?l16))) \<noteq> []"
    and t11: "py_strip (concat (map (\<lambda>sp. span_text sp @ '' '') (concat ?l11))) \<noteq> []"
    by code_simp+
  from classify_block_tag[OF a16 n16 t16, of 0 792] classify_block_tag[OF a11 n11 t11, of 0 792]
  show ?thesis by auto
qed

text \<open>
  Claim C7 against the code. The claim gives \<^verbatim>\<open>Heading2\<close> to a bold block of font size at
  most 12. The source tests \<^verbatim>\<open>span["flags"] & 2\<close> under the comment \<^verbatim>\<open># Bold flag\<close>, but 2
  is the italic flag and bold is 16. So the block \<^verbatim>\<open>Invoice Total: $500\<close> at font size 11,
  bold and not italic, is tagged \<^verbatim>\<open>P\<close>, and the same block italic and not bold is tagged
  \<^verbatim>\<open>H2\<close>.
\<close>

theorem bold_block_tagged_paragraph:
  "font_flag_bold = 16 \<and> font_flag_italic = 2
   \<and> map_option item_type
       (classify_block (\<lambda>x. x) 0 792 []
          (one_span_block (72, 700, 300, 720) ''Invoice Total: $500'' 11 font_flag_bold))
     = Some ''P''
   \<and> map_option item_type
       (classify_block (\<lambda>x. x) 0 792 []
          (one_span_block (72, 700, 300, 720) ''Invoice Total: $500'' 11 font_flag_italic))
     = Some ''H2''"
proof -
  let ?lb = "[[\<lparr>span_text = ''Invoice Total: $500'', span_size = 11, span_flags = 16\<rparr>]]"
  let ?li = "[[\<lparr>span_text = ''Invoice Total: $500'', span_size = 11, span_flags = 2\<rparr>]]"
  let ?bb = "one_span_block (72, 700, 300, 720) ''Invoice Total: $500'' 11 16"
  let ?bi = "one_span_block (72, 700, 300, 720) ''Invoice Total: $500'' 11 2"
  have ab: "block_lines ?bb = Some ?lb" and ai: "block_lines ?bi = Some ?li"
    by (simp_all add: one_span_block_def)
  have nb: "\<not> (\<exists>table_bbox \<in> set []. in_table (\<lambda>x. x) (block_bbox ?bb) table_bbox)"
    and ni: "\<not> (\<exists>table_bbox \<in> set []. in_table (\<lambda>x. x) (block_bbox ?bi) table_bbox)"
    by simp_all
  have tb: "py_strip (concat (map (\<lambda>sp. span_text sp @ '' '') (concat ?lb))) \<noteq> []"
    and ti: "py_strip (concat (map (\<lambda>sp. span_text sp @ '' '') (concat ?li))) \<noteq> []"
    by code_simp+
  have fb: "(16::int) AND 2 = 0" and fi: "(2::int) AND 2 \<noteq> 0" by simp_all
  from classify_block_tag[OF ab nb tb, of 0 792] classify_block_tag[OF ai ni ti, of 0 792] fb fi
  show ?thesis by (auto simp: font_flag_bold_def font_flag_italic_def)
qed
section \<open>The two stages together\<close>

lemma set_map_filter: "set (List.map_filter f xs) = {y. \<exists>x \<in> set xs. f x = Some y}"
  by (induction xs) (auto simp: List.map_filter_simps split: option.splits)

lemma analyze_page_tables_have_cells:
  assumes "item \<in> set (analyze_page fl page_num height raw_tables blocks)"
    and "item_type item = ''Table''"
  shows "2 \<le> cell_count item"
proof -
  from assms(1) obtain bs where bs: "blocks = Some bs"
    by (cases blocks) (auto simp: analyze_page_def)
  let ?tables = "detect_tables raw_tables"
  from assms(1) bs have "item \<in> table_item fl page_num height ` set ?tables
      \<or> item \<in> set (List.map_filter (classify_block fl page_num height (map fst ?tables)) bs)"
    by (auto simp: analyze_page_def Let_def)
  then show ?thesis
  proof
    assume "item \<in> table_item fl page_num height ` set ?tables"
    then obtain t where t: "t \<in> set ?tables" "item = table_item fl page_num height t" by blast
    from t(1) obtain rt where "detect_table rt = Some t"
      by (cases raw_tables) (auto simp: detect_tables_def set_map_filter)
    then have "detect_table rt = Some (fst t, snd t)" by simp
    from detect_table_cell_count[OF this] t(2) show ?thesis
      by (simp add: cell_count_def table_item_def get_table_data_def)
  next
    assume "item \<in> set (List.map_filter (classify_block fl page_num height (map fst ?tables)) bs)"
    then obtain b where "classify_block fl page_num height (map fst ?tables) b = Some item"
      by (auto simp: set_map_filter)
    from classify_block_not_table[OF this] assms(2) show ?thesis by simp
  qed
qed

lemma analyze_layout_tables_have_cells:
  assumes "item \<in> set (analyze_layout fl doc)" and "item_type item = ''Table''"
  shows "2 \<le> cell_count item"
proof -
  from assms(1) obtain page_num and pg :: page_layout where
    "item \<in> set (analyze_page fl page_num (page_height pg) (page_tables pg) (page_blocks pg))"
    by (auto simp: analyze_layout_def)
  from analyze_page_tables_have_cells[OF this assms(2)] show ?thesis .
qed

lemma pipeline_emitted_referenced:
  "set (emitted_mcids content (items_of_page (analyze_layout fl doc) p))
     \<subseteq> set (referenced_mcids (build_section p (items_of_page (analyze_layout fl doc) p)))"
proof
  let ?items = "items_of_page (analyze_layout fl doc) p"
  fix i assume "i \<in> set (emitted_mcids content ?items)"
  from emitted_in_range[OF this] have "i < length ?items" by simp
  moreover have "\<forall>item \<in> set ?items. item_type item = ''Table'' \<longrightarrow> 1 \<le> cell_count item"
  proof (intro ballI impI)
    fix item assume "item \<in> set ?items" "item_type item = ''Table''"
    then have "item \<in> set (analyze_layout fl doc)" by (simp add: items_of_page_def)
    from analyze_layout_tables_have_cells[OF this \<open>item_type item = ''Table''\<close>]
    show "1 \<le> cell_count item" by simp
  qed
  ultimately show "i \<in> set (referenced_mcids (build_section p ?items))"
    using mcid_count_ge_length[of ?items] by (simp add: referenced_section)
qed

text \<open>
  The two numberings on a page with a table: the rewriter marks the paragraph with its
  item index 1, while the builder gives the paragraph the identifier 4 and the
  identifier 1 to the second header cell.
\<close>

lemma index_and_counter_differ_after_table:
  "insert_marked_content_by_bbox ''BT (Hello) Tj ET''
      [table_item (\<lambda>x. x) 0 800 ((0, 0, 100, 100),
         [[\<lparr>cell_text = ''Name'', is_header = True\<rparr>, \<lparr>cell_text = ''Age'', is_header = True\<rparr>],
          [\<lparr>cell_text = ''Ann'', is_header = False\<rparr>, \<lparr>cell_text = ''30'', is_header = False\<rparr>]]),
       text_item ''P'' ''Hello'']
     = ''/P <</MCID 1>> BDC'' @ [CHR 0x0A] @ ''BT (Hello) Tj ET'' @ [CHR 0x0A] @ ''EMC''
   \<and> build_section 0
      [table_item (\<lambda>x. x) 0 800 ((0, 0, 100, 100),
         [[\<lparr>cell_text = ''Name'', is_header = True\<rparr>, \<lparr>cell_text = ''Age'', is_header = True\<rparr>],
          [\<lparr>cell_text = ''Ann'', is_header = False\<rparr>, \<lparr>cell_text = ''30'', is_header = False\<rparr>]]),
       text_item ''P'' ''Hello'']
     = Group ''Sect'' (Some ''Page-1'')
         [Group ''Table'' None
            [Group ''TR'' None [Marked ''TH'' (Some ''Name'') 0, Marked ''TH'' (Some ''Age'') 1],
             Group ''TR'' None [Marked ''TD'' (Some ''Ann'') 2, Marked ''TD'' (Some ''30'') 3]],
          Marked ''P'' (Some ''Hello'') 4]"
  by code_simp


end
